theory Spec2Isabelle
  imports
    Complex_Main
    "HOL-Library.Char_ord"
    "HOL-Library.List_Lexorder"
    "HOL-Library.Multiset"
    "HOL-Library.Sublist"
begin

section \<open>Expense tracker: storage layer (db.py) and page logic (app.py)\<close>

text \<open>
  The program keeps one SQLite table \<open>expenses\<close> (db.py) and a Streamlit script (app.py)
  that fetches the whole table into a pandas frame on every run and filters and aggregates
  it in memory. The table is modelled as the list of its rows in rowid order, the frame as
  the list of its rows in frame order. Amounts are SQLite REAL / Python floats; they are
  modelled as real numbers, so rounding of floating-point sums is outside the model.
\<close>

subsection \<open>Calendar days\<close>

text \<open>
  A \<open>datetime.date\<close> value has the fields year, month and day. A pandas Timestamp of the
  \<open>date\<close> column is the midnight of a day; it is modelled by the ordinal of that day in
  the proleptic Gregorian calendar (day 1 is 0001-01-01, as \<open>date.toordinal\<close>), so that
  \<open>pd.Timedelta(days=n)\<close> is the integer \<open>n\<close> and the comparison of Timestamps is the
  comparison of integers.
\<close>

record pydate =
  year :: int
  month :: int
  day :: int

type_synonym timestamp = int

definition is_leap :: "int \<Rightarrow> bool" where
  "is_leap y = (y mod 4 = 0 \<and> (y mod 100 \<noteq> 0 \<or> y mod 400 = 0))"

definition days_before_year :: "int \<Rightarrow> int" where
  "days_before_year y = (y - 1) * 365 + (y - 1) div 4 - (y - 1) div 100 + (y - 1) div 400"

definition days_in_month :: "int \<Rightarrow> int \<Rightarrow> int" where
  "days_in_month y m =
     (if m = 2 then (if is_leap y then 29 else 28)
      else if m = 4 \<or> m = 6 \<or> m = 9 \<or> m = 11 then 30 else 31)"

definition days_before_month :: "int \<Rightarrow> int \<Rightarrow> int" where
  "days_before_month y m =
     [0, 0, 31, 59, 90, 120, 151, 181, 212, 243, 273, 304, 334] ! nat (m mod 13)
       + (if m > 2 \<and> is_leap y then 1 else 0)"

definition ymd2ord :: "int \<Rightarrow> int \<Rightarrow> int \<Rightarrow> timestamp" where
  "ymd2ord y m d = days_before_year y + days_before_month y m + d"

definition valid_date :: "pydate \<Rightarrow> bool" where
  "valid_date d =
     (1 \<le> year d \<and> year d \<le> 9999 \<and> 1 \<le> month d \<and> month d \<le> 12 \<and>
      1 \<le> day d \<and> day d \<le> days_in_month (year d) (month d))"

text \<open>A month and a day that exist in the year, for any year number.\<close>

definition valid_md :: "pydate \<Rightarrow> bool" where
  "valid_md d = (1 \<le> month d \<and> month d \<le> 12 \<and> 1 \<le> day d \<and> day d \<le> days_in_month (year d) (month d))"

definition toordinal :: "pydate \<Rightarrow> timestamp" where
  "toordinal d = ymd2ord (year d) (month d) (day d)"

text \<open>The inverse conversion, by 400-, 100-, 4- and 1-year cycles.\<close>

definition ord2ymd :: "timestamp \<Rightarrow> pydate" where
  "ord2ymd ord =
     (let n0 = ord - 1;
          n400 = n0 div 146097; r400 = n0 mod 146097;
          n100 = r400 div 36524; r100 = r400 mod 36524;
          n4 = r100 div 1461; r4 = r100 mod 1461;
          n1 = r4 div 365; n = r4 mod 365;
          y = n400 * 400 + 1 + n100 * 100 + n4 * 4 + n1
      in if n1 = 4 \<or> n100 = 4 then \<lparr>year = y - 1, month = 12, day = 31\<rparr>
         else
           let m = (n + 50) div 32;
               preceding = days_before_month y m
           in if preceding > n
              then \<lparr>year = y, month = m - 1,
                    day = n - (preceding - days_in_month y (m - 1)) + 1\<rparr>
              else \<lparr>year = y, month = m, day = n - preceding + 1\<rparr>)"

definition year_of :: "timestamp \<Rightarrow> int" where
  "year_of t = year (ord2ymd t)"

definition month_of :: "timestamp \<Rightarrow> int" where
  "month_of t = month (ord2ymd t)"

text \<open>Day of the week, Monday = 0 (\<open>date.weekday\<close>).\<close>

definition weekday :: "timestamp \<Rightarrow> int" where
  "weekday t = (t + 6) mod 7"

text \<open>Python compares two dates as the triples (year, month, day).\<close>

definition date_less :: "pydate \<Rightarrow> pydate \<Rightarrow> bool" where
  "date_less a b =
     (year a < year b \<or> (year a = year b \<and>
        (month a < month b \<or> (month a = month b \<and> day a < day b))))"

subsection \<open>Date texts\<close>

definition digit_char :: "nat \<Rightarrow> char" where
  "digit_char k = ''0123456789'' ! (k mod 10)"

definition pad2 :: "int \<Rightarrow> string" where
  "pad2 n = [digit_char (nat (n div 10)), digit_char (nat n)]"

definition pad4 :: "int \<Rightarrow> string" where
  "pad4 n = [digit_char (nat (n div 1000)), digit_char (nat (n div 100)),
             digit_char (nat (n div 10)), digit_char (nat n)]"

text \<open>
  The canonical text \<open>YYYY-MM-DD\<close> of a date: four digits, two and two.
\<close>

definition iso_text :: "pydate \<Rightarrow> string" where
  "iso_text d = pad4 (year d) @ ''-'' @ pad2 (month d) @ ''-'' @ pad2 (day d)"

text \<open>
  \<open>d.strftime("%Y-%m-%d")\<close>. Python hands the format to the C library, which on Linux
  writes \<open>%Y\<close> as the decimal number of the year without padding: the year 999 gives
  \<open>999\<close>, only a year from 1000 on gives four digits. The month and the day are always
  two digits. (Years of a date are 1 to 9999.)
\<close>

definition year_text :: "int \<Rightarrow> string" where
  "year_text y =
     (if y < 10 then [digit_char (nat y)]
      else if y < 100 then [digit_char (nat (y div 10)), digit_char (nat y)]
      else if y < 1000
        then [digit_char (nat (y div 100)), digit_char (nat (y div 10)), digit_char (nat y)]
      else pad4 y)"

definition strftime_ymd :: "pydate \<Rightarrow> string" where
  "strftime_ymd d = year_text (year d) @ ''-'' @ pad2 (month d) @ ''-'' @ pad2 (day d)"

definition is_digit :: "char \<Rightarrow> bool" where
  "is_digit c = (c \<in> set ''0123456789'')"

definition digit_val :: "char \<Rightarrow> int" where
  "digit_val c = int (of_char c) - 48"

definition number_of :: "string \<Rightarrow> int option" where
  "number_of s =
     (if s \<noteq> [] \<and> list_all is_digit s
      then Some (foldl (\<lambda>a c. 10 * a + digit_val c) 0 s) else None)"

text \<open>
  The canonical form of the \<open>date\<close> column: ten characters \<open>YYYY-MM-DD\<close> that name a day
  of the calendar.
\<close>

definition parse_iso :: "string \<Rightarrow> pydate option" where
  "parse_iso s =
     (if length s = 10 \<and> s ! 4 = CHR ''-'' \<and> s ! 7 = CHR ''-''
      then (case (number_of (take 4 s), number_of (take 2 (drop 5 s)), number_of (drop 8 s)) of
              (Some y, Some m, Some d) \<Rightarrow>
                (let p = \<lparr>year = y, month = m, day = d\<rparr>
                 in if valid_date p then Some p else None)
            | _ \<Rightarrow> None)
      else None)"

definition canonical_iso :: "string \<Rightarrow> bool" where
  "canonical_iso s = (parse_iso s \<noteq> None)"

text \<open>Field values that fit the four and two digits of the text.\<close>

definition text_fields :: "pydate \<Rightarrow> bool" where
  "text_fields d = (0 \<le> year d \<and> year d < 10000 \<and> 0 \<le> month d \<and> month d < 100 \<and>
                    0 \<le> day d \<and> day d < 100)"

text \<open>
  The Timestamp that a canonical text names. A pandas Timestamp of nanosecond resolution
  holds the midnights of the days 1677-09-22 to 2262-04-11 (days 612412 to 825914).
\<close>

definition iso_timestamp :: "string \<Rightarrow> timestamp option" where
  "iso_timestamp s =
     (case parse_iso s of
        None \<Rightarrow> None
      | Some p \<Rightarrow> if 612412 \<le> toordinal p \<and> toordinal p \<le> 825914
                  then Some (toordinal p) else None)"

text \<open>
  \<open>pd.to_datetime\<close> on the date column is a parameter of the model: a function from the
  texts of the column to the Timestamps, \<open>None\<close> when it raises. What the properties
  below assume of it is \<open>reads_iso_dates\<close>: a column of canonical texts of days in the
  Timestamp range is read as those days. pandas reads other texts as well and raises on
  others; the model leaves that open. \<open>to_datetime_iso\<close> is one such function, which
  raises on every other column.
\<close>

type_synonym column_parser = "string list \<Rightarrow> timestamp list option"

definition reads_iso_dates :: "column_parser \<Rightarrow> bool" where
  "reads_iso_dates to_datetime =
     (\<forall>col. list_all (\<lambda>s. iso_timestamp s \<noteq> None) col \<longrightarrow>
        to_datetime col = Some (map (\<lambda>s. the (iso_timestamp s)) col))"

definition to_datetime_iso :: column_parser where
  "to_datetime_iso col =
     (if list_all (\<lambda>s. iso_timestamp s \<noteq> None) col
      then Some (map (\<lambda>s. the (iso_timestamp s)) col) else None)"

subsection \<open>The table and its operations (db.py)\<close>

text \<open>
  One record type serves the table and the frame: in the table the \<open>date\<close> column is
  text, in the frame returned by \<open>fetch_expenses\<close> it is a Timestamp. The columns \<open>id\<close> and
  \<open>notes\<close> are the fields \<open>eid\<close> and \<open>enotes\<close>; a NULL \<open>notes\<close> is \<open>None\<close>.
\<close>

record 'd expense =
  eid :: nat
  amount :: real
  category :: string
  date :: 'd
  enotes :: "string option"
  created_at :: string

type_synonym row = "string expense"
type_synonym frame = "timestamp expense list"

text \<open>
  The table: its rows in rowid order and the AUTOINCREMENT counter (the largest rowid
  ever used). The database file holds the table or, before \<open>init_db\<close>, nothing.
\<close>

record table =
  rows :: "row list"
  seq :: nat

type_synonym db = "table option"

datatype db_error = OperationalError | DateParseError

definition stored :: "db \<Rightarrow> row list" where
  "stored s = (case s of None \<Rightarrow> [] | Some t \<Rightarrow> rows t)"

text \<open>\<open>CREATE TABLE IF NOT EXISTS\<close>.\<close>

definition init_db :: "db \<Rightarrow> db" where
  "init_db s = (case s of None \<Rightarrow> Some \<lparr>rows = [], seq = 0\<rparr> | Some t \<Rightarrow> Some t)"

text \<open>The \<open>date_str\<close> argument of \<open>add_expense\<close>: a string, a date or a datetime.\<close>

datatype date_arg = Str string | Date_obj pydate | Datetime_obj pydate nat nat nat

text \<open>
  \<open>add_expense\<close>; \<open>now\<close> is the text that \<open>CURRENT_TIMESTAMP\<close> yields at the insert
  (\<open>YYYY-MM-DD HH:MM:SS\<close>, to the second). The insert raises when the table is missing.
\<close>

definition add_expense ::
    "real \<Rightarrow> string \<Rightarrow> date_arg \<Rightarrow> string option \<Rightarrow> string \<Rightarrow> db \<Rightarrow> db_error + db" where
  "add_expense amt cat date_str nts now s =
     (let date_str' = (case date_str of
                         Date_obj d \<Rightarrow> strftime_ymd d
                       | Datetime_obj d _ _ _ \<Rightarrow> strftime_ymd d
                       | Str t \<Rightarrow> t)
      in case s of
           None \<Rightarrow> Inl OperationalError
         | Some t \<Rightarrow>
             Inr (Some \<lparr>rows = rows t @
                          [\<lparr>eid = seq t + 1, amount = amt, category = cat, date = date_str',
                            enotes = nts, created_at = now\<rparr>],
                        seq = seq t + 1\<rparr>))"

text \<open>
  \<open>ORDER BY date DESC, created_at DESC\<close>: both columns are text and SQLite compares
  them byte by byte. \<open>sorts_before a b\<close> says that \<open>a\<close> has the strictly greater key.
  SQL leaves the order of rows with equal keys open; the model keeps them in rowid order.
\<close>

definition sorts_before :: "row \<Rightarrow> row \<Rightarrow> bool" where
  "sorts_before a b =
     (date a > date b \<or> (date a = date b \<and> created_at a > created_at b))"

fun insert_desc :: "row \<Rightarrow> row list \<Rightarrow> row list" where
  "insert_desc x [] = [x]"
| "insert_desc x (y # ys) =
     (if sorts_before y x then y # insert_desc x ys else x # y # ys)"

definition order_by_date_created_desc :: "row list \<Rightarrow> row list" where
  "order_by_date_created_desc rs = foldr insert_desc rs []"

definition with_date :: "row \<Rightarrow> timestamp \<Rightarrow> timestamp expense" where
  "with_date r t =
     \<lparr>eid = eid r, amount = amount r, category = category r, date = t,
      enotes = enotes r, created_at = created_at r\<rparr>"

definition fetch_expenses :: "column_parser \<Rightarrow> db \<Rightarrow> db_error + frame" where
  "fetch_expenses to_datetime s =
     (case s of
        None \<Rightarrow> Inl OperationalError
      | Some t \<Rightarrow>
          let df = order_by_date_created_desc (rows t)
          in if df = [] then Inr []
             else (case to_datetime (map date df) of
                     None \<Rightarrow> Inl DateParseError
                   | Some ts \<Rightarrow> Inr (map (\<lambda>(r, d). with_date r d) (zip df ts))))"

text \<open>
  \<open>add_demo_data\<close>: \<open>init_db\<close>, then sixty inserts. The random choices and the clock
  are inputs: draw \<open>i\<close> gives the number drawn by \<open>random.randint(0, 365)\<close>, the rounded
  amount, the index drawn by \<open>random.choice\<close> and the \<open>CURRENT_TIMESTAMP\<close> of insert
  \<open>i\<close>; \<open>today\<close> is the day of \<open>datetime.today()\<close>.
\<close>

record draw =
  days_back :: nat
  demo_amount :: real
  pick :: nat
  stamp :: string

definition categories :: "string list" where
  "categories = [''Housing'', ''Food'', ''Transportation'', ''Utilities'', ''Entertainment'',
                 ''Healthcare'', ''Other'']"

definition add_demo_row :: "timestamp \<Rightarrow> draw \<Rightarrow> db \<Rightarrow> db_error + db" where
  "add_demo_row today w s =
     (let d = ord2ymd (today - int (days_back w mod 366))
      in add_expense (demo_amount w) (categories ! (pick w mod length categories))
           (Str (strftime_ymd d)) (Some ''Demo expense'') (stamp w) s)"

fun demo_loop :: "timestamp \<Rightarrow> (nat \<Rightarrow> draw) \<Rightarrow> nat list \<Rightarrow> db \<Rightarrow> db_error + db" where
  "demo_loop today draws [] s = Inr s"
| "demo_loop today draws (i # is) s =
     (case add_demo_row today (draws i) s of
        Inl e \<Rightarrow> Inl e
      | Inr s' \<Rightarrow> demo_loop today draws is s')"

definition add_demo_data :: "timestamp \<Rightarrow> (nat \<Rightarrow> draw) \<Rightarrow> db \<Rightarrow> db_error + db" where
  "add_demo_data today draws s = demo_loop today draws [0..<60] (init_db s)"

subsection \<open>View and export (app.py)\<close>

text \<open>
  \<open>st.date_input\<close> yields dates and \<open>pd.to_datetime\<close> turns a date into the Timestamp
  of its midnight; both are the ordinal of the day here. The three filters are applied
  in this order to a copy of the frame.
\<close>

definition date_range_filter :: "timestamp \<Rightarrow> timestamp \<Rightarrow> frame \<Rightarrow> frame" where
  "date_range_filter start_dt end_dt filtered =
     filter (\<lambda>r. date r \<ge> start_dt \<and> date r \<le> end_dt) filtered"

definition category_filter :: "string list \<Rightarrow> frame \<Rightarrow> frame" where
  "category_filter selected_cats filtered =
     (if selected_cats \<noteq> [] then filter (\<lambda>r. category r \<in> set selected_cats) filtered
      else filtered)"

text \<open>
  \<open>.astype(str)\<close> on the notes column, an object column as \<open>read_sql_query\<close> returns
  it: a missing value becomes the text \<open>None\<close> (pandas before 3.0, the versions in which
  the \<open>resample('M')\<close> of the dashboard is accepted).
\<close>

definition astype_str :: "string option \<Rightarrow> string" where
  "astype_str v = (case v of None \<Rightarrow> ''None'' | Some t \<Rightarrow> t)"

text \<open>
  \<open>.str.contains(pat, case=False, na=False)\<close> compiles \<open>pat\<close> as a regular expression
  and searches each text for it, ignoring case. The search is a parameter \<open>contains\<close> of
  the filter. \<open>contains_nocase\<close> is that search for a pattern made of ordinary ASCII
  characters (no regular-expression metacharacter), where it is the search for the
  pattern as a substring after lowering both texts.
\<close>

definition lower_char :: "char \<Rightarrow> char" where
  "lower_char c =
     (case map_of (zip ''ABCDEFGHIJKLMNOPQRSTUVWXYZ'' ''abcdefghijklmnopqrstuvwxyz'') c of
        None \<Rightarrow> c
      | Some l \<Rightarrow> l)"

fun starts_with :: "string \<Rightarrow> string \<Rightarrow> bool" where
  "starts_with [] t = True"
| "starts_with (c # p) [] = False"
| "starts_with (c # p) (x # t) = (c = x \<and> starts_with p t)"

fun substring_of :: "string \<Rightarrow> string \<Rightarrow> bool" where
  "substring_of p [] = (p = [])"
| "substring_of p (x # t) = (starts_with p (x # t) \<or> substring_of p t)"

definition contains_nocase :: "string \<Rightarrow> string \<Rightarrow> bool" where
  "contains_nocase pat t = substring_of (map lower_char pat) (map lower_char t)"

definition text_search_filter ::
    "(string \<Rightarrow> string \<Rightarrow> bool) \<Rightarrow> string \<Rightarrow> frame \<Rightarrow> frame" where
  "text_search_filter contains text_search filtered =
     (if text_search \<noteq> []
      then filter (\<lambda>r. contains text_search (astype_str (enotes r))) filtered
      else filtered)"

definition view_filtered ::
    "(string \<Rightarrow> string \<Rightarrow> bool) \<Rightarrow> timestamp \<Rightarrow> timestamp \<Rightarrow> string list \<Rightarrow> string
       \<Rightarrow> frame \<Rightarrow> frame" where
  "view_filtered contains start_dt end_dt selected_cats text_search df =
     text_search_filter contains text_search
       (category_filter selected_cats (date_range_filter start_dt end_dt df))"

subsection \<open>Dashboard (app.py)\<close>

datatype timeframe =
  Last_30_days | Last_90_days | Year_to_date | All_time | Custom_range timestamp timestamp

definition date_max :: "frame \<Rightarrow> timestamp" where
  "date_max df = Max (set (map date df))"

definition date_min :: "frame \<Rightarrow> timestamp" where
  "date_min df = Min (set (map date df))"

text \<open>
  The pair (start, end) of the selected timeframe; the frame is not empty here. For a
  custom range the two dates come from the widget.
\<close>

fun resolve_timeframe :: "timeframe \<Rightarrow> frame \<Rightarrow> timestamp \<times> timestamp" where
  "resolve_timeframe (Custom_range d0 d1) df = (d0, d1)"
| "resolve_timeframe tf df =
     (let end_ts = date_max df;
          start_ts = (if tf = Last_30_days then end_ts - 30
                      else if tf = Last_90_days then end_ts - 90
                      else if tf = Year_to_date then ymd2ord (year_of end_ts) 1 1
                      else date_min df)
      in (start_ts, end_ts))"

text \<open>
  \<open>resample('M')\<close> sums the amounts by calendar month and yields one row for every
  month from the month of the earliest date to the month of the latest, labelled with the
  last day of the month. Months are numbered \<open>12 * year + (month - 1)\<close>.
\<close>

definition month_index :: "timestamp \<Rightarrow> int" where
  "month_index t = 12 * year_of t + (month_of t - 1)"

definition month_end :: "int \<Rightarrow> timestamp" where
  "month_end k = (let y = k div 12; m = k mod 12 + 1 in ymd2ord y m (days_in_month y m))"

definition resample_M :: "frame \<Rightarrow> (timestamp \<times> real) list" where
  "resample_M df =
     (if df = [] then []
      else map (\<lambda>k. (month_end k,
                      sum_list (map amount (filter (\<lambda>r. month_index (date r) = k) df))))
             [month_index (date_min df) .. month_index (date_max df)])"

text \<open>
  \<open>resample('W-MON')\<close> is the weekly frequency anchored on Monday with bins closed and
  labelled on the right: the bin labelled with a Monday holds the seven days that end on
  that Monday. The first label is the Monday on or after the earliest date, the last one
  the Monday on or after the latest date.
\<close>

definition roll_to_monday :: "timestamp \<Rightarrow> timestamp" where
  "roll_to_monday t = t + (7 - weekday t) mod 7"

definition resample_W_MON :: "frame \<Rightarrow> (timestamp \<times> real) list" where
  "resample_W_MON df =
     (if df = [] then []
      else let first_label = roll_to_monday (date_min df);
               last_label = roll_to_monday (date_max df)
           in map (\<lambda>i. let label = first_label + 7 * i
                        in (label,
                            sum_list (map amount
                              (filter (\<lambda>r. label - 7 < date r \<and> date r \<le> label) df))))
                [0 .. (last_label - first_label) div 7])"

definition tail :: "nat \<Rightarrow> 'a list \<Rightarrow> 'a list" where
  "tail n xs = drop (length xs - n) xs"

text \<open>
  The label of a weekly bar is \<open>strftime('%Y-%W')\<close> of the date of its bucket: the year
  and the number of the week of the year, where weeks start on Monday and the days before
  the first Monday of the year are week 0. The weekly chart shows the last 12 buckets,
  each with this label and its amount.
\<close>

definition day_of_year :: "timestamp \<Rightarrow> int" where
  "day_of_year t = t - ymd2ord (year_of t) 1 1"

definition week_of_year :: "timestamp \<Rightarrow> int" where
  "week_of_year t = (day_of_year t + 7 - weekday t) div 7"

definition strftime_Y_W :: "timestamp \<Rightarrow> string" where
  "strftime_Y_W t = year_text (year_of t) @ ''-'' @ pad2 (week_of_year t)"

definition weekly_bars :: "frame \<Rightarrow> (string \<times> real) list" where
  "weekly_bars df_filtered =
     map (\<lambda>(d, a). (strftime_Y_W d, a)) (tail 12 (resample_W_MON df_filtered))"

record dashboard_view =
  total :: real
  last_30_days :: real
  records :: nat
  monthly :: "(timestamp \<times> real) list"
  weekly_chart :: "(timestamp \<times> real) list"

text \<open>The dashboard page: \<open>None\<close> is the "No data" notice for an empty frame.\<close>

definition dashboard :: "timeframe \<Rightarrow> frame \<Rightarrow> dashboard_view option" where
  "dashboard tf df =
     (if df = [] then None
      else let (start_ts, end_ts) = resolve_timeframe tf df;
               df_filtered = filter (\<lambda>r. date r \<ge> start_ts \<and> date r \<le> end_ts) df
           in Some \<lparr>total = sum_list (map amount df_filtered),
                    last_30_days =
                      sum_list (map amount
                        (filter (\<lambda>r. date r \<ge> end_ts - 30 \<and> date r \<le> end_ts) df)),
                    records = length df_filtered,
                    monthly = resample_M df_filtered,
                    weekly_chart = tail 12 (resample_W_MON df_filtered)\<rparr>)"

subsection \<open>Add expense, and a run of the script (app.py)\<close>

datatype message = St_error string | St_success

text \<open>
  The submit handler of the form: the message shown (or the exception raised) and the
  database afterwards. The wording of the success message is not modelled.
\<close>

definition add_expense_submit ::
    "column_parser \<Rightarrow> real \<Rightarrow> pydate \<Rightarrow> string \<Rightarrow> string \<Rightarrow> string \<Rightarrow> db
       \<Rightarrow> (db_error + message) \<times> db" where
  "add_expense_submit to_datetime amt date_input cat nts now s =
     (if amt \<le> 0 then (Inr (St_error ''Enter an amount > 0''), s)
      else (case add_expense amt cat (Date_obj date_input) (Some nts) now s of
              Inl e \<Rightarrow> (Inl e, s)
            | Inr s' \<Rightarrow> (case fetch_expenses to_datetime s' of
                          Inl e \<Rightarrow> (Inl e, s')
                        | Inr df \<Rightarrow> (Inr St_success, s'))))"

text \<open>
  One run of the script: \<open>init_db\<close>, the fetch, then the selected page. Only the Add
  Expense page with a submitted form and the Settings page with the button pressed touch
  the database again. The result is the database after the run; an exception ends the
  run and leaves what was committed.
\<close>

datatype page =
  Dashboard timeframe
| Add_Expense "(real \<times> pydate \<times> string \<times> string \<times> string) option"
| View_Export
| Settings "(timestamp \<times> (nat \<Rightarrow> draw)) option"

definition run_script :: "column_parser \<Rightarrow> page \<Rightarrow> db \<Rightarrow> db" where
  "run_script to_datetime p s =
     (let s0 = init_db s
      in case fetch_expenses to_datetime s0 of
           Inl e \<Rightarrow> s0
         | Inr df \<Rightarrow>
             (case p of
                Add_Expense (Some (amt, d, cat, nts, now)) \<Rightarrow>
                  snd (add_expense_submit to_datetime amt d cat nts now s0)
              | Settings (Some (today, draws)) \<Rightarrow>
                  (case add_demo_data today draws s0 of Inl e \<Rightarrow> s0 | Inr s' \<Rightarrow> s')
              | _ \<Rightarrow> s0))"

text \<open>The four operations of db.py, as requests to the storage layer.\<close>

datatype db_op =
  Op_init_db
| Op_add_expense real string date_arg "string option" string
| Op_fetch_expenses
| Op_add_demo_data timestamp "nat \<Rightarrow> draw"

fun exec_op :: "db_op \<Rightarrow> db \<Rightarrow> db" where
  "exec_op Op_init_db s = init_db s"
| "exec_op (Op_add_expense amt cat d nts now) s =
     (case add_expense amt cat d nts now s of Inl e \<Rightarrow> s | Inr s' \<Rightarrow> s')"
| "exec_op Op_fetch_expenses s = s"
| "exec_op (Op_add_demo_data today draws) s =
     (case add_demo_data today draws s of Inl e \<Rightarrow> init_db s | Inr s' \<Rightarrow> s')"

subsection \<open>Sample data\<close>

text \<open>2024-01-15 is day 738900 (a Monday), 2024-04-24 is day 739000.\<close>

definition lunch :: "timestamp expense" where
  "lunch = \<lparr>eid = 1, amount = 50, category = ''Food'', date = 738900,
            enotes = Some ''Lunch'', created_at = ''2024-01-15 12:00:00''\<rparr>"

definition rent :: "timestamp expense" where
  "rent = \<lparr>eid = 2, amount = 900, category = ''Housing'', date = 739000,
           enotes = None, created_at = ''2024-04-24 09:00:00''\<rparr>"

definition empty_db :: db where
  "empty_db = Some \<lparr>rows = [], seq = 0\<rparr>"

text \<open>
  Two expenses of the same day entered within the same second, and a table of two
  expenses of different days.
\<close>

definition twin_db :: db where
  "twin_db = fold exec_op
     [Op_init_db,
      Op_add_expense 50 ''Food'' (Date_obj \<lparr>year = 2024, month = 1, day = 15\<rparr>) (Some ''lunch'')
        ''2024-01-15 12:00:00'',
      Op_add_expense 20 ''Food'' (Date_obj \<lparr>year = 2024, month = 1, day = 15\<rparr>) None
        ''2024-01-15 12:00:00''] None"

definition first_twin :: "timestamp expense" where
  "first_twin = \<lparr>eid = 1, amount = 50, category = ''Food'', date = 738900,
                 enotes = Some ''lunch'', created_at = ''2024-01-15 12:00:00''\<rparr>"

definition second_twin :: "timestamp expense" where
  "second_twin = \<lparr>eid = 2, amount = 20, category = ''Food'', date = 738900,
                  enotes = None, created_at = ''2024-01-15 12:00:00''\<rparr>"

definition sample_table :: table where
  "sample_table = \<lparr>rows =
     [\<lparr>eid = 1, amount = 50, category = ''Food'', date = ''2024-01-15'',
       enotes = Some ''Lunch'', created_at = ''2024-01-15 12:00:00''\<rparr>,
      \<lparr>eid = 2, amount = 900, category = ''Housing'', date = ''2024-04-24'',
       enotes = None, created_at = ''2024-04-24 09:00:00''\<rparr>], seq = 2\<rparr>"

text \<open>
  For comparison, weekly buckets as the specification words them ("per week starting
  Monday"): the bucket of a Monday holds that Monday and the six days after it. This
  definition follows the specification, not app.py.
\<close>

definition week_start :: "timestamp \<Rightarrow> timestamp" where
  "week_start t = t - weekday t"

definition buckets_per_week_starting_monday :: "frame \<Rightarrow> (timestamp \<times> real) list" where
  "buckets_per_week_starting_monday df =
     (if df = [] then []
      else let first_start = week_start (date_min df);
               last_start = week_start (date_max df)
           in map (\<lambda>i. let start = first_start + 7 * i
                        in (start,
                            sum_list (map amount
                              (filter (\<lambda>r. start \<le> date r \<and> date r < start + 7) df))))
                [0 .. (last_start - first_start) div 7])"

text \<open>2024-01-21 is day 738906, the Sunday after Monday 2024-01-15.\<close>

definition dinner :: "timestamp expense" where
  "dinner = \<lparr>eid = 3, amount = 20, category = ''Food'', date = 738906,
             enotes = Some ''Dinner'', created_at = ''2024-01-21 20:00:00''\<rparr>"

text \<open>2024-01-14 is day 738899, the Sunday before Monday 2024-01-15.\<close>

definition brunch :: "timestamp expense" where
  "brunch = \<lparr>eid = 4, amount = 20, category = ''Food'', date = 738899,
             enotes = Some ''Brunch'', created_at = ''2024-01-14 11:00:00''\<rparr>"

section \<open>Properties\<close>

subsection \<open>Calendar facts\<close>

text \<open>
  The day number is strictly monotone in (year, month, day), and \<open>ord2ymd\<close> is the
  inverse of \<open>ymd2ord\<close>: it returns a month and a day that exist, of the day it was
  given. Hence years and month numbers grow with the day number, and the weekly and
  monthly labels are what their names say.
\<close>

lemma div_step:
  assumes "0 < (k::int)"
  shows "y div k = (y - 1) div k + (if y mod k = 0 then 1 else 0)"
proof -
  define q where "q = (y - 1) div k"
  define r where "r = (y - 1) mod k"
  have r: "0 \<le> r" "r < k" using assms by (simp_all add: r_def)
  have y: "y = (r + 1) + q * k" unfolding q_def r_def by simp
  show ?thesis
  proof (cases "r + 1 < k")
    case True
    then have "y div k = q" "y mod k = r + 1"
      using r by (simp_all add: y)
    then show ?thesis using r by (simp add: q_def)
  next
    case False
    then have rk: "r + 1 = k" using r by simp
    then have "y = (q + 1) * k" by (simp add: y algebra_simps)
    then have "y div k = q + 1" "y mod k = 0" using assms by simp_all
    then show ?thesis by (simp add: q_def)
  qed
qed
lemma upto_1_12: "set [1..12] = {1,2,3,4,5,6,7,8,9,10,11,12::int}"
  by (simp add: upto.simps)
lemma month_cases:
  "1 \<le> m \<Longrightarrow> m \<le> 12 \<Longrightarrow>
   (m::int) = 1 \<or> m = 2 \<or> m = 3 \<or> m = 4 \<or> m = 5 \<or> m = 6 \<or> m = 7 \<or> m = 8 \<or> m = 9 \<or> m = 10
     \<or> m = 11 \<or> m = 12"
proof -
  assume "1 \<le> m" "m \<le> 12"
  then have "m \<in> set [1..12]" by simp
  then show ?thesis unfolding upto_1_12 by simp
qed

lemma mod_400_100: "(y::int) mod 400 = 0 \<Longrightarrow> y mod 100 = 0"
  using mod_mod_cancel[of 100 400 y] by simp

lemma mod_100_4: "(y::int) mod 100 = 0 \<Longrightarrow> y mod 4 = 0"
  using mod_mod_cancel[of 4 100 y] by simp

lemma days_before_year_Suc:
  "days_before_year (y + 1) = days_before_year y + 365 + (if is_leap y then 1 else 0)"
proof -
  define a where "a = (if y mod 4 = 0 then 1 else 0::int)"
  define b where "b = (if y mod 100 = 0 then 1 else 0::int)"
  define c where "c = (if y mod 400 = 0 then 1 else 0::int)"
  have e4: "y div 4 = (y - 1) div 4 + a" unfolding a_def by (rule div_step) simp
  have e100: "y div 100 = (y - 1) div 100 + b" unfolding b_def by (rule div_step) simp
  have e400: "y div 400 = (y - 1) div 400 + c" unfolding c_def by (rule div_step) simp
  have "days_before_year (y + 1) = y * 365 + y div 4 - y div 100 + y div 400"
    by (simp add: days_before_year_def)
  also have "\<dots> = days_before_year y + 365 + (a - b + c)"
    unfolding days_before_year_def e4 e100 e400 by (simp add: algebra_simps)
  also have "a - b + c = (if is_leap y then 1 else 0)"
    using mod_400_100[of y] mod_100_4[of y] unfolding a_def b_def c_def is_leap_def
    by (cases "y mod 4 = 0"; cases "y mod 100 = 0"; cases "y mod 400 = 0") simp_all
  finally show ?thesis .
qed

lemma days_before_year_mono: "y \<le> y' \<Longrightarrow> days_before_year y \<le> days_before_year y'"
proof (induction y' rule: int_ge_induct)
  case base
  show ?case by simp
next
  case (step i)
  then show ?case by (simp add: days_before_year_Suc)
qed

lemma days_before_year_next:
  assumes "y < y'"
  shows "days_before_year y + 365 + (if is_leap y then 1 else 0) \<le> days_before_year y'"
proof -
  from assms have "y + 1 \<le> y'" by simp
  then have "days_before_year (y + 1) \<le> days_before_year y'" by (rule days_before_year_mono)
  then show ?thesis by (simp add: days_before_year_Suc)
qed

lemma days_before_month_next:
  assumes "1 \<le> m" "m < 12"
  shows "days_before_month y (m + 1) = days_before_month y m + days_in_month y m"
proof -
  from assms have "m \<le> 12" by simp
  from month_cases[OF assms(1) this] assms(2) show ?thesis
    by (elim disjE) (simp_all add: days_before_month_def days_in_month_def)
qed

lemma days_in_month_pos: "1 \<le> days_in_month y m"
  by (simp add: days_in_month_def)

lemma days_before_month_mono:
  assumes "1 \<le> m" "m < m'" "m' \<le> 12"
  shows "days_before_month y m + days_in_month y m \<le> days_before_month y m'"
  using assms(2,1,3)
proof (induction m' rule: int_gr_induct)
  case base
  then show ?case by (simp add: days_before_month_next)
next
  case (step i)
  then have "days_before_month y m + days_in_month y m \<le> days_before_month y i" by simp
  also have "\<dots> \<le> days_before_month y (i + 1)"
    using step days_in_month_pos[of y i] by (simp add: days_before_month_next)
  finally show ?case .
qed

lemma days_before_month_nonneg: "1 \<le> m \<Longrightarrow> m \<le> 12 \<Longrightarrow> 0 \<le> days_before_month y m"
  by (drule (1) month_cases, elim disjE) (simp_all add: days_before_month_def)

lemma days_in_year_bound:
  assumes "1 \<le> m" "m \<le> 12"
  shows "days_before_month y m + days_in_month y m \<le> 365 + (if is_leap y then 1 else 0)"
  using month_cases[OF assms]
  by (elim disjE) (simp_all add: days_before_month_def days_in_month_def)

lemma toordinal_strict_mono:
  assumes "valid_md a" "valid_md b" "date_less a b"
  shows "toordinal a < toordinal b"
proof -
  from assms(3) consider
      (y) "year a < year b"
    | (m) "year a = year b" "month a < month b"
    | (d) "year a = year b" "month a = month b" "day a < day b"
    unfolding date_less_def by blast
  then show ?thesis
  proof cases
    case y
    have "days_before_month (year a) (month a) + day a
            \<le> 365 + (if is_leap (year a) then 1 else 0)"
      using days_in_year_bound[of "month a" "year a"] assms(1) unfolding valid_md_def by simp
    moreover have "0 \<le> days_before_month (year b) (month b)"
      using days_before_month_nonneg assms(2) unfolding valid_md_def by simp
    moreover have "1 \<le> day b" using assms(2) unfolding valid_md_def by simp
    ultimately show ?thesis
      using days_before_year_next[OF y] unfolding toordinal_def ymd2ord_def by simp
  next
    case m
    have "days_before_month (year a) (month a) + days_in_month (year a) (month a)
            \<le> days_before_month (year a) (month b)"
      using days_before_month_mono[of "month a" "month b" "year a"] m assms(1,2)
      unfolding valid_md_def by simp
    then show ?thesis
      using m assms(1,2) unfolding toordinal_def ymd2ord_def valid_md_def by simp
  next
    case d
    then show ?thesis unfolding toordinal_def ymd2ord_def by simp
  qed
qed

lemma date_less_total: "date_less a b \<or> a = b \<or> date_less b a"
  unfolding date_less_def by (cases a, cases b) auto

lemma toordinal_inj:
  assumes "valid_md a" "valid_md b" "toordinal a = toordinal b"
  shows "a = b"
  using date_less_total[of a b] toordinal_strict_mono[OF assms(1,2)]
    toordinal_strict_mono[OF assms(2,1)] assms(3) by auto

lemma toordinal_less_iff:
  assumes "valid_md a" "valid_md b"
  shows "toordinal a < toordinal b \<longleftrightarrow> date_less a b"
  using date_less_total[of a b] toordinal_strict_mono[OF assms(1,2)]
    toordinal_strict_mono[OF assms(2,1)] by auto

lemma month_day_of_offset:
  fixes n y :: int
  assumes n: "0 \<le> n" "n \<le> 364"
  defines "m \<equiv> (n + 50) div 32"
  defines "p \<equiv> days_before_month y m"
  defines "m' \<equiv> (if p > n then m - 1 else m)"
  defines "d' \<equiv> (if p > n then n - (p - days_in_month y (m - 1)) + 1 else n - p + 1)"
  shows "1 \<le> m' \<and> m' \<le> 12 \<and> 1 \<le> d' \<and> d' \<le> days_in_month y m' \<and>
         days_before_month y m' + d' = n + 1"
proof -
  define r where "r = (n + 50) mod 32"
  have r: "0 \<le> r" "r < 32" by (simp_all add: r_def)
  have eq: "n = 32 * m + r - 50" unfolding m_def r_def by simp
  have "1 \<le> m" "m \<le> 12" using n r eq by simp_all
  from month_cases[OF this] show ?thesis
  proof (elim disjE)
    assume "m = 1" then show ?thesis
      using n r eq unfolding m'_def d'_def p_def
      by (simp add: days_before_month_def days_in_month_def)
  next
    assume "m = 2" then show ?thesis
      using n r eq unfolding m'_def d'_def p_def
      by (simp add: days_before_month_def days_in_month_def)
  next
    assume "m = 3" then show ?thesis
      using n r eq unfolding m'_def d'_def p_def
      by (simp add: days_before_month_def days_in_month_def)
  next
    assume "m = 4" then show ?thesis
      using n r eq unfolding m'_def d'_def p_def
      by (simp add: days_before_month_def days_in_month_def)
  next
    assume "m = 5" then show ?thesis
      using n r eq unfolding m'_def d'_def p_def
      by (simp add: days_before_month_def days_in_month_def)
  next
    assume "m = 6" then show ?thesis
      using n r eq unfolding m'_def d'_def p_def
      by (simp add: days_before_month_def days_in_month_def)
  next
    assume "m = 7" then show ?thesis
      using n r eq unfolding m'_def d'_def p_def
      by (simp add: days_before_month_def days_in_month_def)
  next
    assume "m = 8" then show ?thesis
      using n r eq unfolding m'_def d'_def p_def
      by (simp add: days_before_month_def days_in_month_def)
  next
    assume "m = 9" then show ?thesis
      using n r eq unfolding m'_def d'_def p_def
      by (simp add: days_before_month_def days_in_month_def)
  next
    assume "m = 10" then show ?thesis
      using n r eq unfolding m'_def d'_def p_def
      by (simp add: days_before_month_def days_in_month_def)
  next
    assume "m = 11" then show ?thesis
      using n r eq unfolding m'_def d'_def p_def
      by (simp add: days_before_month_def days_in_month_def)
  next
    assume "m = 12" then show ?thesis
      using n r eq unfolding m'_def d'_def p_def
      by (simp add: days_before_month_def days_in_month_def)
  qed
qed

lemma div_decomp: "0 \<le> r \<Longrightarrow> r < k \<Longrightarrow> (k * q + r) div k = (q::int)"
  by (simp add: div_pos_pos_trivial)

lemma mod_decomp: "(k * q + r) mod k = r mod (k::int)"
  by simp

lemma days_before_year_decomp:
  assumes "0 \<le> b" "b \<le> 3" "0 \<le> c" "c \<le> 24" "0 \<le> e" "e \<le> 3"
  shows "days_before_year (400 * a + 100 * b + 4 * c + e + 1)
           = 146097 * a + 36524 * b + 1461 * c + 365 * e"
proof -
  define Y where "Y = 400 * a + 100 * b + 4 * c + e"
  have "Y = 4 * (100 * a + 25 * b + c) + e" by (simp add: Y_def)
  then have d4: "Y div 4 = 100 * a + 25 * b + c"
    using assms div_decomp[of e 4 "100 * a + 25 * b + c"] by simp
  have "Y = 100 * (4 * a + b) + (4 * c + e)" by (simp add: Y_def)
  then have d100: "Y div 100 = 4 * a + b"
    using assms div_decomp[of "4 * c + e" 100 "4 * a + b"] by simp
  have "Y = 400 * a + (100 * b + 4 * c + e)" by (simp add: Y_def)
  then have d400: "Y div 400 = a"
    using assms div_decomp[of "100 * b + 4 * c + e" 400 a] by simp
  have "days_before_year (Y + 1) = Y * 365 + Y div 4 - Y div 100 + Y div 400"
    by (simp add: days_before_year_def)
  also have "\<dots> = 146097 * a + 36524 * b + 1461 * c + 365 * e"
    unfolding d4 d100 d400 by (simp add: Y_def)
  finally show ?thesis by (simp add: Y_def)
qed

lemma is_leap_decomp:
  assumes "0 \<le> b" "b \<le> 3" "0 \<le> c" "c \<le> 24" "0 \<le> e" "e \<le> 3"
  shows "is_leap (400 * a + 100 * b + 4 * c + e + 1) \<longleftrightarrow> e = 3 \<and> (c \<noteq> 24 \<or> b = 3)"
proof -
  define y where "y = 400 * a + 100 * b + 4 * c + e + 1"
  have y4: "y = 4 * (100 * a + 25 * b + c) + (e + 1)" by (simp add: y_def)
  have m4: "y mod 4 = (e + 1) mod 4" by (subst y4) (rule mod_decomp)
  have y100: "y = 100 * (4 * a + b) + (4 * c + e + 1)" by (simp add: y_def)
  have m100: "y mod 100 = (4 * c + e + 1) mod 100" by (subst y100) (rule mod_decomp)
  have y400: "y = 400 * (a) + (100 * b + 4 * c + e + 1)" by (simp add: y_def)
  have m400: "y mod 400 = (100 * b + 4 * c + e + 1) mod 400" by (subst y400) (rule mod_decomp)
  have a4: "(e + 1) mod 4 = 0 \<longleftrightarrow> e = 3"
  proof (cases "e = 3")
    case True then show ?thesis by simp
  next
    case False
    with assms have "0 \<le> e + 1" "e + 1 < 4" by simp_all
    then have "(e + 1) mod 4 = e + 1" by simp
    with assms False show ?thesis by simp
  qed
  have a100: "(4 * c + e + 1) mod 100 = 0 \<longleftrightarrow> c = 24 \<and> e = 3"
  proof (cases "c = 24 \<and> e = 3")
    case True then show ?thesis by simp
  next
    case False
    with assms have "0 \<le> 4 * c + e + 1" "4 * c + e + 1 < 100" by auto
    then have "(4 * c + e + 1) mod 100 = 4 * c + e + 1" by simp
    with assms False show ?thesis by simp
  qed
  have a400: "(100 * b + 4 * c + e + 1) mod 400 = 0 \<longleftrightarrow> b = 3 \<and> c = 24 \<and> e = 3"
  proof (cases "b = 3 \<and> c = 24 \<and> e = 3")
    case True then show ?thesis by simp
  next
    case False
    with assms have "0 \<le> 100 * b + 4 * c + e + 1" "100 * b + 4 * c + e + 1 < 400" by auto
    then have "(100 * b + 4 * c + e + 1) mod 400 = 100 * b + 4 * c + e + 1" by simp
    with assms False show ?thesis by simp
  qed
  show ?thesis
    unfolding is_leap_def y_def[symmetric] m4 m100 m400 a4 a100 a400 by blast
qed

lemma ord2ymd_correct: "valid_md (ord2ymd t) \<and> toordinal (ord2ymd t) = t"
proof -
  define n0 where "n0 = t - 1"
  define a where "a = n0 div 146097"
  define r400 where "r400 = n0 mod 146097"
  define b where "b = r400 div 36524"
  define r100 where "r100 = r400 mod 36524"
  define c where "c = r100 div 1461"
  define r4 where "r4 = r100 mod 1461"
  define e where "e = r4 div 365"
  define n where "n = r4 mod 365"
  define y where "y = a * 400 + 1 + b * 100 + c * 4 + e"
  define m where "m = (n + 50) div 32"
  define p where "p = days_before_month y m"
  have o: "ord2ymd t =
     (if e = 4 \<or> b = 4 then \<lparr>year = y - 1, month = 12, day = 31\<rparr>
      else if p > n
           then \<lparr>year = y, month = m - 1, day = n - (p - days_in_month y (m - 1)) + 1\<rparr>
           else \<lparr>year = y, month = m, day = n - p + 1\<rparr>)"
    unfolding ord2ymd_def Let_def p_def m_def y_def n_def e_def r4_def c_def r100_def b_def
      r400_def a_def n0_def by (rule refl)
  have t: "t = 146097 * a + r400 + 1" unfolding a_def r400_def n0_def by simp
  have r400: "0 \<le> r400" "r400 < 146097" by (simp_all add: r400_def)
  have e400: "r400 = 36524 * b + r100" unfolding b_def r100_def by simp
  have r100: "0 \<le> r100" "r100 < 36524" by (simp_all add: r100_def)
  have e100: "r100 = 1461 * c + r4" unfolding c_def r4_def by simp
  have r4: "0 \<le> r4" "r4 < 1461" by (simp_all add: r4_def)
  have e4: "r4 = 365 * e + n" unfolding e_def n_def by simp
  have n: "0 \<le> n" "n < 365" by (simp_all add: n_def)
  have b: "0 \<le> b" "b \<le> 4" using r400 r100 e400 by simp_all
  have c: "0 \<le> c" "c \<le> 24" using r100 r4 e100 by simp_all
  have e: "0 \<le> e" "e \<le> 4" using r4 n e4 by simp_all
  show ?thesis
  proof (cases "b = 4")
    case True
    with r400 r100 e400 have "r100 = 0" by simp
    with r4 e100 c have "c = 0" "r4 = 0" by simp_all
    with e4 n e have "e = 0" "n = 0" by simp_all
    have yy: "y - 1 = 400 * a + 100 * 3 + 4 * 24 + 3 + 1"
      using True \<open>c = 0\<close> \<open>e = 0\<close> by (simp add: y_def)
    have d: "days_before_year (y - 1) = 146097 * a + 145731"
      unfolding yy using days_before_year_decomp[of 3 24 3 a] by simp
    have l: "is_leap (y - 1)"
      unfolding yy using is_leap_decomp[of 3 24 3 a] by simp
    have tt: "t = 146097 * a + 146097"
      using t e400 True \<open>r100 = 0\<close> by simp
    have od: "ord2ymd t = \<lparr>year = y - 1, month = 12, day = 31\<rparr>"
      using True by (simp add: o)
    show ?thesis
      unfolding od using d l tt
      by (simp add: valid_md_def toordinal_def ymd2ord_def days_in_month_def
          days_before_month_def)
  next
    case b3: False
    with b have b': "b \<le> 3" by simp
    show ?thesis
    proof (cases "e = 4")
      case True
      with e4 r4 n have "n = 0" by simp
      from True e4 \<open>n = 0\<close> e100 r100 c have c': "c \<le> 23" by simp
      have yy: "y - 1 = 400 * a + 100 * b + 4 * c + 3 + 1"
        using True by (simp add: y_def)
      have d: "days_before_year (y - 1) = 146097 * a + 36524 * b + 1461 * c + 1095"
        unfolding yy using days_before_year_decomp[of b c 3 a] b b' c c' by simp
      have l: "is_leap (y - 1)"
        unfolding yy using is_leap_decomp[of b c 3 a] b b' c c' by simp
      have tt: "t = 146097 * a + 36524 * b + 1461 * c + 1461"
        using t e400 e100 e4 True \<open>n = 0\<close> by simp
      have od: "ord2ymd t = \<lparr>year = y - 1, month = 12, day = 31\<rparr>"
        using True by (simp add: o)
      show ?thesis
        unfolding od using d l tt
        by (simp add: valid_md_def toordinal_def ymd2ord_def days_in_month_def
            days_before_month_def)
    next
      case False
      with e have e': "e \<le> 3" by simp
      have yy: "y = 400 * a + 100 * b + 4 * c + e + 1" by (simp add: y_def)
      have d: "days_before_year y = 146097 * a + 36524 * b + 1461 * c + 365 * e"
        unfolding yy using days_before_year_decomp[of b c e a] b b' c e e' by simp
      have tt: "t = days_before_year y + n + 1"
        using t e400 e100 e4 d by simp
      from n have n': "n \<le> 364" by simp
      note md = month_day_of_offset[OF n(1) n', of y, folded m_def, folded p_def]
      show ?thesis
      proof (cases "p > n")
        case True
        with False b3 have od: "ord2ymd t =
            \<lparr>year = y, month = m - 1, day = n - (p - days_in_month y (m - 1)) + 1\<rparr>"
          by (simp add: o)
        show ?thesis
          unfolding od using md True tt by (simp add: valid_md_def toordinal_def ymd2ord_def)
      next
        case pn: False
        with False b3 have od: "ord2ymd t = \<lparr>year = y, month = m, day = n - p + 1\<rparr>"
          by (simp add: o)
        show ?thesis
          unfolding od using md pn tt by (simp add: valid_md_def toordinal_def ymd2ord_def)
      qed
    qed
  qed
qed

lemma ord2ymd_toordinal: "valid_md d \<Longrightarrow> ord2ymd (toordinal d) = d"
  using toordinal_inj[of "ord2ymd (toordinal d)" d] ord2ymd_correct[of "toordinal d"] by simp

lemma ord2ymd_less_iff: "date_less (ord2ymd s) (ord2ymd t) \<longleftrightarrow> s < t"
  using toordinal_less_iff[of "ord2ymd s" "ord2ymd t"] ord2ymd_correct[of s] ord2ymd_correct[of t]
  by simp

lemma year_of_mono: "s \<le> t \<Longrightarrow> year_of s \<le> year_of t"
proof (rule ccontr)
  assume "s \<le> t" and "\<not> year_of s \<le> year_of t"
  then have "date_less (ord2ymd t) (ord2ymd s)" by (simp add: date_less_def year_of_def)
  then have "t < s" by (simp add: ord2ymd_less_iff)
  with \<open>s \<le> t\<close> show False by simp
qed

lemma month_range: "1 \<le> month_of t \<and> month_of t \<le> 12"
  using ord2ymd_correct[of t] by (simp add: valid_md_def month_of_def)

lemma month_index_mono: "s \<le> t \<Longrightarrow> month_index s \<le> month_index t"
proof (rule ccontr)
  assume st: "s \<le> t" and "\<not> month_index s \<le> month_index t"
  then have lt: "12 * year_of t + month_of t < 12 * year_of s + month_of s"
    by (simp add: month_index_def)
  have yy: "year_of s \<le> year_of t" using st by (rule year_of_mono)
  have eq: "year_of s = year_of t"
    using yy lt month_range[of s] month_range[of t] by simp
  with lt have "date_less (ord2ymd t) (ord2ymd s)"
    by (simp add: date_less_def year_of_def month_of_def)
  then have "t < s" by (simp add: ord2ymd_less_iff)
  with st show False by simp
qed

lemma year_of_jan1: "year_of (ymd2ord y 1 1) = y"
  using ord2ymd_toordinal[of "\<lparr>year = y, month = 1, day = 1\<rparr>"]
  by (simp add: valid_md_def toordinal_def year_of_def days_in_month_def)



lemma roll_to_monday_bounds: "t \<le> roll_to_monday t \<and> roll_to_monday t < t + 7"
  by (simp add: roll_to_monday_def)

lemma weekday_roll_to_monday: "weekday (roll_to_monday t) = 0"
  unfolding roll_to_monday_def weekday_def by presburger

lemma roll_to_monday_fix: "weekday t = 0 \<Longrightarrow> roll_to_monday t = t"
  by (simp add: roll_to_monday_def)

lemma monday_diff: "weekday s = 0 \<Longrightarrow> weekday t = 0 \<Longrightarrow> (t - s) mod 7 = 0"
  unfolding weekday_def by presburger

lemma monday_on_or_after:
  assumes "weekday m = 0" "t \<le> m"
  shows "roll_to_monday t \<le> m"
proof -
  have "(m - roll_to_monday t) mod 7 = 0"
    using assms(1) weekday_roll_to_monday[of t] by (rule monday_diff[rotated])
  moreover have "m - roll_to_monday t > -7"
    using roll_to_monday_bounds[of t] assms(2) by simp
  ultimately show ?thesis by presburger
qed

lemma roll_to_monday_mono: "s \<le> t \<Longrightarrow> roll_to_monday s \<le> roll_to_monday t"
  using monday_on_or_after[of "roll_to_monday t" s] weekday_roll_to_monday[of t]
    roll_to_monday_bounds[of t] by simp

lemma month_index_month_end: "month_index (month_end k) = k"
proof -
  define y where "y = k div 12"
  define m where "m = k mod 12 + 1"
  define d where "d = \<lparr>year = y, month = m, day = days_in_month y m\<rparr>"
  have m: "1 \<le> m" "m \<le> 12" by (simp_all add: m_def)
  have "valid_md d" using m days_in_month_pos[of y m] by (simp add: valid_md_def d_def)
  then have "ord2ymd (toordinal d) = d" by (rule ord2ymd_toordinal)
  moreover have "month_end k = toordinal d"
    by (simp add: month_end_def Let_def toordinal_def d_def y_def m_def)
  ultimately have "ord2ymd (month_end k) = d" by simp
  then have "month_index (month_end k) = 12 * y + (m - 1)"
    by (simp add: month_index_def year_of_def month_of_def d_def)
  also have "\<dots> = k" by (simp add: y_def m_def)
  finally show ?thesis .
qed

lemma month_end_last_day: "month_index (month_end k + 1) = k + 1"
proof -
  define y where "y = k div 12"
  define m where "m = k mod 12 + 1"
  have m: "1 \<le> m" "m \<le> 12" by (simp_all add: m_def)
  have me: "month_end k = ymd2ord y m (days_in_month y m)"
    by (simp add: month_end_def Let_def y_def m_def)
  show ?thesis
  proof (cases "m = 12")
    case True
    define d where "d = \<lparr>year = y + 1, month = 1, day = 1\<rparr>"
    have "toordinal d = month_end k + 1"
      using True days_before_year_Suc[of y]
      by (simp add: me d_def toordinal_def ymd2ord_def days_before_month_def days_in_month_def)
    moreover have "valid_md d" by (simp add: valid_md_def d_def days_in_month_def)
    ultimately have "ord2ymd (month_end k + 1) = d" using ord2ymd_toordinal[of d] by simp
    then have "month_index (month_end k + 1) = 12 * (y + 1)"
      by (simp add: month_index_def year_of_def month_of_def d_def)
    also have "\<dots> = k + 1" using True by (simp add: y_def m_def) presburger
    finally show ?thesis .
  next
    case False
    with m have m11: "m < 12" by simp
    define d where "d = \<lparr>year = y, month = m + 1, day = 1\<rparr>"
    have "toordinal d = month_end k + 1"
      using days_before_month_next[OF m(1) m11, of y]
      by (simp add: me d_def toordinal_def ymd2ord_def)
    moreover have "valid_md d" using m m11 days_in_month_pos[of y "m + 1"]
      by (simp add: valid_md_def d_def)
    ultimately have "ord2ymd (month_end k + 1) = d" using ord2ymd_toordinal[of d] by simp
    then have "month_index (month_end k + 1) = 12 * y + m"
      by (simp add: month_index_def year_of_def month_of_def d_def)
    also have "\<dots> = k + 1" by (simp add: y_def m_def)
    finally show ?thesis .
  qed
qed

subsection \<open>Date text facts\<close>

text \<open>
  The text \<open>YYYY-MM-DD\<close> of a date parses back to the date, every canonical text is
  the text of its date, and texts compare as their dates do.
\<close>

lemma digit_cases:
  "k < 10 \<Longrightarrow> (k::nat) = 0 \<or> k = 1 \<or> k = 2 \<or> k = 3 \<or> k = 4 \<or> k = 5 \<or> k = 6 \<or> k = 7 \<or> k = 8 \<or> k = 9"
proof -
  assume "k < 10"
  then have "int k \<in> set [0..9]" by simp
  then have "int k \<in> {0,1,2,3,4,5,6,7,8,9}" by (simp add: upto.simps)
  then show ?thesis by simp
qed

lemma of_char_digit: "k < 10 \<Longrightarrow> of_char (digit_char k) = (48 + k :: nat)"
  by (drule digit_cases, elim disjE) (simp_all add: digit_char_def)

lemma digit_char_mod: "digit_char (k mod 10) = digit_char k"
  by (simp add: digit_char_def)

lemma digit_char_less:
  assumes "a < 10" "b < 10"
  shows "digit_char a < digit_char b \<longleftrightarrow> a < b"
  using assms by (simp add: less_char_def of_char_digit)

lemma digit_char_eq:
  assumes "a < 10" "b < 10"
  shows "digit_char a = digit_char b \<longleftrightarrow> a = b"
proof
  assume "digit_char a = digit_char b"
  then have "(of_char (digit_char a) :: nat) = of_char (digit_char b)" by simp
  with assms show "a = b" by (simp add: of_char_digit)
qed simp

lemma is_digit_digit_char: "is_digit (digit_char k)"
proof -
  have "k mod 10 < 10" by simp
  from digit_cases[OF this] have "is_digit (digit_char (k mod 10))"
    by (elim disjE) (simp_all add: digit_char_def is_digit_def)
  then show ?thesis by (simp add: digit_char_mod)
qed

lemma digit_val_digit_char: "digit_val (digit_char k) = int (k mod 10)"
proof -
  have "k mod 10 < 10" by simp
  then have "of_char (digit_char (k mod 10)) = (48 + k mod 10 :: nat)" by (rule of_char_digit)
  then show ?thesis by (simp add: digit_val_def digit_char_mod)
qed

lemma append_less_same_length:
  "length xs = length ys \<Longrightarrow>
     (xs @ u < ys @ v) \<longleftrightarrow> (xs < ys \<or> (xs = ys \<and> u < (v :: char list)))"
  by (induction xs ys rule: list_induct2) auto

lemma length_pad2: "length (pad2 n) = 2"
  by (simp add: pad2_def)

lemma length_pad4: "length (pad4 n) = 4"
  by (simp add: pad4_def)

lemma pad2_digits:
  assumes "0 \<le> n" "n < 100"
  shows "pad2 n = [digit_char (nat (n div 10)), digit_char (nat (n mod 10))]"
    and "nat (n div 10) < 10" and "nat (n mod 10) < 10"
proof -
  have "nat n mod 10 = nat (n mod 10)" using assms by (simp add: nat_mod_distrib)
  then have "digit_char (nat n) = digit_char (nat (n mod 10))"
    using digit_char_mod[of "nat n"] by simp
  then show "pad2 n = [digit_char (nat (n div 10)), digit_char (nat (n mod 10))]"
    by (simp add: pad2_def)
  show "nat (n div 10) < 10" using assms by simp
  show "nat (n mod 10) < 10" by simp
qed

lemma lex_base:
  fixes a b c d k :: int
  assumes "0 \<le> b" "b < k" "0 \<le> d" "d < k"
  shows "(a < c \<or> (a = c \<and> b < d)) \<longleftrightarrow> k * a + b < k * c + d"
proof (cases "a < c")
  case True
  then have "a + 1 \<le> c" by simp
  then have "k * (a + 1) \<le> k * c" using assms by (intro mult_left_mono) simp_all
  then have "k * a + k \<le> k * c" by (simp add: algebra_simps)
  with assms True show ?thesis by simp
next
  case nlt: False
  show ?thesis
  proof (cases "a = c")
    case True
    then show ?thesis by simp
  next
    case False
    with nlt have "c + 1 \<le> a" by simp
    then have "k * (c + 1) \<le> k * a" using assms by (intro mult_left_mono) simp_all
    then have "k * c + k \<le> k * a" by (simp add: algebra_simps)
    with assms nlt False show ?thesis by simp
  qed
qed

lemma pad2_less:
  assumes "0 \<le> m" "m < 100" "0 \<le> n" "n < 100"
  shows "pad2 m < pad2 n \<longleftrightarrow> m < n"
proof -
  define a where "a = m div 10"
  define b where "b = m mod 10"
  define c where "c = n div 10"
  define d where "d = n mod 10"
  have m: "m = 10 * a + b" and n: "n = 10 * c + d" by (simp_all add: a_def b_def c_def d_def)
  have bd: "0 \<le> b" "b < 10" "0 \<le> d" "d < 10" by (simp_all add: b_def d_def)
  have ac: "0 \<le> a" "a < 10" "0 \<le> c" "c < 10" using assms by (simp_all add: a_def c_def)
  have pm: "pad2 m = [digit_char (nat a), digit_char (nat b)]"
    unfolding a_def b_def by (rule pad2_digits(1)[OF assms(1,2)])
  have pn: "pad2 n = [digit_char (nat c), digit_char (nat d)]"
    unfolding c_def d_def by (rule pad2_digits(1)[OF assms(3,4)])
  have na: "nat a < 10" "nat b < 10" "nat c < 10" "nat d < 10" using bd ac by simp_all
  have l1: "digit_char (nat a) < digit_char (nat c) \<longleftrightarrow> a < c"
    using digit_char_less[OF na(1) na(3)] ac by auto
  have l2: "digit_char (nat b) < digit_char (nat d) \<longleftrightarrow> b < d"
    using digit_char_less[OF na(2) na(4)] bd by auto
  have l3: "digit_char (nat a) = digit_char (nat c) \<longleftrightarrow> a = c"
    using digit_char_eq[OF na(1) na(3)] ac by auto
  have "pad2 m < pad2 n \<longleftrightarrow> (a < c \<or> (a = c \<and> b < d))"
    unfolding pm pn by (simp add: l1 l2 l3)
  also have "\<dots> \<longleftrightarrow> m < n"
    unfolding m n using bd by (rule lex_base)
  finally show ?thesis .
qed

lemma pad2_eq:
  assumes "0 \<le> m" "m < 100" "0 \<le> n" "n < 100"
  shows "pad2 m = pad2 n \<longleftrightarrow> m = n"
proof
  assume e: "pad2 m = pad2 n"
  have "\<not> m < n" using pad2_less[OF assms] e by simp
  moreover have "\<not> n < m" using pad2_less[OF assms(3,4,1,2)] e by simp
  ultimately show "m = n" by simp
qed simp

lemma digit_char_nat_cong:
  assumes "0 \<le> a" "0 \<le> b" "a mod 10 = b mod (10::int)"
  shows "digit_char (nat a) = digit_char (nat b)"
proof -
  have "nat (a mod 10) = nat a mod nat 10" using assms(1) by (intro nat_mod_distrib) simp_all
  moreover have "nat (b mod 10) = nat b mod nat 10"
    using assms(2) by (intro nat_mod_distrib) simp_all
  ultimately have "nat a mod 10 = nat b mod 10" using assms(3) by simp
  then show ?thesis using digit_char_mod[of "nat a"] digit_char_mod[of "nat b"] by simp
qed

lemma mod_100_split: "(n::int) mod 100 = 10 * (n div 10 mod 10) + n mod 10"
  using zmod_zmult2_eq[of 10 n 10] by simp

lemma pad4_split:
  assumes "0 \<le> n"
  shows "pad4 n = pad2 (n div 100) @ pad2 (n mod 100)"
proof -
  have a: "n div 100 div 10 = n div 1000"
    using zdiv_zmult2_eq[of 10 n 100] by simp
  have "(n mod 100) div 10 = n div 10 mod 10"
    unfolding mod_100_split by (rule div_decomp) simp_all
  then have "(n mod 100) div 10 mod 10 = (n div 10) mod 10" by simp
  moreover have "0 \<le> (n mod 100) div 10" "0 \<le> n div 10" using assms by simp_all
  ultimately have b: "digit_char (nat ((n mod 100) div 10)) = digit_char (nat (n div 10))"
    by (intro digit_char_nat_cong)
  have "n mod 100 mod 10 = n mod 10" by (simp add: mod_mod_cancel)
  moreover have "0 \<le> n mod 100" by simp
  ultimately have c: "digit_char (nat (n mod 100)) = digit_char (nat n)"
    using assms by (intro digit_char_nat_cong)
  show ?thesis by (simp add: pad4_def pad2_def a b c)
qed

lemma pad4_less:
  assumes "0 \<le> m" "m < 10000" "0 \<le> n" "n < 10000"
  shows "pad4 m < pad4 n \<longleftrightarrow> m < n"
proof -
  define a where "a = m div 100"
  define b where "b = m mod 100"
  define c where "c = n div 100"
  define d where "d = n mod 100"
  have m: "m = 100 * a + b" and n: "n = 100 * c + d" by (simp_all add: a_def b_def c_def d_def)
  have bd: "0 \<le> b" "b < 100" "0 \<le> d" "d < 100" by (simp_all add: b_def d_def)
  have ac: "0 \<le> a" "a < 100" "0 \<le> c" "c < 100" using assms by (simp_all add: a_def c_def)
  have "pad4 m < pad4 n \<longleftrightarrow> (pad2 a < pad2 c \<or> (pad2 a = pad2 c \<and> pad2 b < pad2 d))"
    unfolding pad4_split[OF assms(1)] pad4_split[OF assms(3)] a_def[symmetric] b_def[symmetric]
      c_def[symmetric] d_def[symmetric]
    by (rule append_less_same_length) (simp add: length_pad2)
  also have "\<dots> \<longleftrightarrow> (a < c \<or> (a = c \<and> b < d))"
    using pad2_less[OF ac] pad2_eq[OF ac] pad2_less[OF bd] by simp
  also have "\<dots> \<longleftrightarrow> m < n"
    unfolding m n using bd by (rule lex_base)
  finally show ?thesis .
qed

lemma pad4_eq:
  assumes "0 \<le> m" "m < 10000" "0 \<le> n" "n < 10000"
  shows "pad4 m = pad4 n \<longleftrightarrow> m = n"
proof
  assume e: "pad4 m = pad4 n"
  have "\<not> m < n" using pad4_less[OF assms] e by simp
  moreover have "\<not> n < m" using pad4_less[OF assms(3,4,1,2)] e by simp
  ultimately show "m = n" by simp
qed simp

lemma valid_date_text_fields: "valid_date d \<Longrightarrow> text_fields d"
  by (auto simp: valid_date_def text_fields_def days_in_month_def split: if_splits)

lemma iso_text_less:
  assumes "text_fields a" "text_fields b"
  shows "iso_text a < iso_text b \<longleftrightarrow> date_less a b"
proof -
  have a: "0 \<le> year a" "year a < 10000" "0 \<le> month a" "month a < 100" "0 \<le> day a" "day a < 100"
    and b: "0 \<le> year b" "year b < 10000" "0 \<le> month b" "month b < 100" "0 \<le> day b" "day b < 100"
    using assms by (simp_all add: text_fields_def)
  have "iso_text a < iso_text b \<longleftrightarrow>
        (pad4 (year a) < pad4 (year b) \<or> (pad4 (year a) = pad4 (year b) \<and>
           CHR ''-'' # (pad2 (month a) @ CHR ''-'' # pad2 (day a))
             < CHR ''-'' # (pad2 (month b) @ CHR ''-'' # pad2 (day b))))"
    unfolding iso_text_def by (simp add: append_less_same_length length_pad4)
  also have "CHR ''-'' # (pad2 (month a) @ CHR ''-'' # pad2 (day a))
             < CHR ''-'' # (pad2 (month b) @ CHR ''-'' # pad2 (day b)) \<longleftrightarrow>
        (pad2 (month a) < pad2 (month b) \<or> (pad2 (month a) = pad2 (month b) \<and>
           pad2 (day a) < pad2 (day b)))"
    by (simp add: append_less_same_length length_pad2)
  finally show ?thesis
    using pad4_less[OF a(1,2) b(1,2)] pad4_eq[OF a(1,2) b(1,2)]
      pad2_less[OF a(3,4) b(3,4)] pad2_eq[OF a(3,4) b(3,4)] pad2_less[OF a(5,6) b(5,6)]
    by (simp add: date_less_def)
qed

lemma iso_text_inj:
  assumes "text_fields a" "text_fields b" "iso_text a = iso_text b"
  shows "a = b"
proof -
  have "\<not> date_less a b" "\<not> date_less b a"
    using iso_text_less[OF assms(1,2)] iso_text_less[OF assms(2,1)] assms(3) by simp_all
  then show ?thesis using date_less_total[of a b] by simp
qed

lemma foldl_pad2:
  assumes "0 \<le> n" "n < 100"
  shows "foldl (\<lambda>a c. 10 * a + digit_val c) acc (pad2 n) = 100 * acc + n"
proof -
  have d1: "int (nat (n div 10) mod 10) = n div 10" using assms by simp
  have d0: "int (nat (n mod 10) mod 10) = n mod 10" by simp
  have "foldl (\<lambda>a c. 10 * a + digit_val c) acc (pad2 n)
          = 10 * (10 * acc + n div 10) + n mod 10"
    unfolding pad2_digits(1)[OF assms] by (simp add: digit_val_digit_char d1 d0)
  then show ?thesis by simp
qed

lemma list_all_digit_pad2: "list_all is_digit (pad2 n)"
  by (simp add: pad2_def is_digit_digit_char)

lemma list_all_digit_pad4: "list_all is_digit (pad4 n)"
  by (simp add: pad4_def is_digit_digit_char)

lemma number_of_pad2: "0 \<le> n \<Longrightarrow> n < 100 \<Longrightarrow> number_of (pad2 n) = Some n"
  using foldl_pad2[of n 0] by (simp add: number_of_def list_all_digit_pad2) (simp add: pad2_def)

lemma number_of_pad4:
  assumes "0 \<le> n" "n < 10000"
  shows "number_of (pad4 n) = Some n"
proof -
  have hi: "0 \<le> n div 100" "n div 100 < 100" and lo: "0 \<le> n mod 100" "n mod 100 < 100"
    using assms by simp_all
  have "foldl (\<lambda>a c. 10 * a + digit_val c) 0 (pad4 n) = 100 * (n div 100) + n mod 100"
    unfolding pad4_split[OF assms(1)] foldl_append foldl_pad2[OF hi] foldl_pad2[OF lo] by simp
  then have "foldl (\<lambda>a c. 10 * a + digit_val c) 0 (pad4 n) = n" by simp
  moreover have "pad4 n \<noteq> []" by (simp add: pad4_def)
  ultimately show ?thesis by (simp add: number_of_def list_all_digit_pad4)
qed

lemma iso_text_parts:
  "length (iso_text d) = 10" "iso_text d ! 4 = CHR ''-''" "iso_text d ! 7 = CHR ''-''"
  "take 4 (iso_text d) = pad4 (year d)" "take 2 (drop 5 (iso_text d)) = pad2 (month d)"
  "drop 8 (iso_text d) = pad2 (day d)"
  by (simp_all add: iso_text_def pad4_def pad2_def)

lemma pydate_eta: "\<lparr>year = year d, month = month d, day = day d\<rparr> = (d::pydate)"
  by (cases d) simp

lemma parse_iso_iso_text:
  assumes "valid_date d"
  shows "parse_iso (iso_text d) = Some d"
proof -
  from assms have "text_fields d" by (rule valid_date_text_fields)
  then have "number_of (pad4 (year d)) = Some (year d)"
    "number_of (pad2 (month d)) = Some (month d)" "number_of (pad2 (day d)) = Some (day d)"
    by (simp_all add: text_fields_def number_of_pad4 number_of_pad2)
  with assms show ?thesis
    by (simp add: parse_iso_def iso_text_parts Let_def pydate_eta)
qed

lemma is_digit_val:
  assumes "is_digit c"
  shows "0 \<le> digit_val c \<and> digit_val c < 10 \<and> digit_char (nat (digit_val c)) = c"
proof -
  from assms have "c = CHR ''0'' \<or> c = CHR ''1'' \<or> c = CHR ''2'' \<or> c = CHR ''3'' \<or> c = CHR ''4''
      \<or> c = CHR ''5'' \<or> c = CHR ''6'' \<or> c = CHR ''7'' \<or> c = CHR ''8'' \<or> c = CHR ''9''"
    by (simp add: is_digit_def)
  then show ?thesis
    by (elim disjE) (simp_all add: digit_val_def digit_char_def)
qed

lemma list10:
  assumes "length s = 10"
  shows "\<exists>a b c d e f g h i j. s = [a, b, c, d, e, f, g, h, i, j]"
proof -
  from assms have "length s = Suc (Suc (Suc (Suc (Suc (Suc (Suc (Suc (Suc (Suc 0)))))))))"
    by simp
  then show ?thesis by (auto simp: length_Suc_conv)
qed

lemma number_of_two:
  assumes "number_of [c1, c0] = Some v"
  shows "[c1, c0] = pad2 v \<and> 0 \<le> v \<and> v < 100"
proof -
  from assms have d: "is_digit c1" "is_digit c0" and v: "v = 10 * digit_val c1 + digit_val c0"
    by (auto simp: number_of_def split: if_splits)
  note a = is_digit_val[OF d(1)] and b = is_digit_val[OF d(2)]
  have r: "0 \<le> v" "v < 100" using a b v by simp_all
  have "v div 10 = digit_val c1" unfolding v using b by (intro div_decomp) simp_all
  moreover have "v mod 10 = digit_val c0" unfolding v using b by simp
  ultimately have "pad2 v = [c1, c0]"
    unfolding pad2_digits(1)[OF r] using a b by simp
  with r show ?thesis by simp
qed

lemma number_of_four:
  assumes "number_of [c3, c2, c1, c0] = Some v"
  shows "[c3, c2, c1, c0] = pad4 v"
proof -
  from assms have d: "is_digit c3" "is_digit c2" "is_digit c1" "is_digit c0"
    and v: "v = 10 * (10 * (10 * digit_val c3 + digit_val c2) + digit_val c1) + digit_val c0"
    by (auto simp: number_of_def split: if_splits)
  define hi where "hi = 10 * digit_val c3 + digit_val c2"
  define lo where "lo = 10 * digit_val c1 + digit_val c0"
  have nh: "number_of [c3, c2] = Some hi" and nl: "number_of [c1, c0] = Some lo"
    using d by (simp_all add: number_of_def hi_def lo_def)
  note h = number_of_two[OF nh] and l = number_of_two[OF nl]
  have vv: "v = 100 * hi + lo" by (simp add: v hi_def lo_def)
  have "v div 100 = hi" unfolding vv using l by (intro div_decomp) simp_all
  moreover have "v mod 100 = lo" unfolding vv using l by simp
  moreover have "0 \<le> v" using h l vv by simp
  ultimately have "pad4 v = pad2 hi @ pad2 lo" by (simp add: pad4_split)
  with h l show ?thesis by simp
qed

lemma parse_iso_canonical:
  assumes "parse_iso s = Some p"
  shows "s = iso_text p \<and> valid_date p"
proof -
  from assms have len: "length s = 10" by (simp add: parse_iso_def split: if_splits)
  from list10[OF this] obtain a b c d e f g h i j where s: "s = [a, b, c, d, e, f, g, h, i, j]"
    by blast
  from assms obtain y m dd where
    ny: "number_of [a, b, c, d] = Some y" and nm: "number_of [f, g] = Some m" and
    nd: "number_of [i, j] = Some dd" and dash: "e = CHR ''-''" "h = CHR ''-''" and
    p: "p = \<lparr>year = y, month = m, day = dd\<rparr>" and v: "valid_date p"
    unfolding s by (auto simp: parse_iso_def Let_def split: if_splits option.splits)
  have "s = pad4 y @ ''-'' @ pad2 m @ ''-'' @ pad2 dd"
    using number_of_four[OF ny] number_of_two[OF nm] number_of_two[OF nd] dash
    by (simp add: s)
  with p v show ?thesis by (simp add: iso_text_def)
qed

lemma strftime_ymd_iso: "1000 \<le> year d \<Longrightarrow> strftime_ymd d = iso_text d"
  by (simp add: strftime_ymd_def iso_text_def year_text_def)

lemma iso_timestamp_order:
  assumes "iso_timestamp s = Some a" "iso_timestamp t = Some b"
  shows "(s < t \<longleftrightarrow> a < b) \<and> (s = t \<longleftrightarrow> a = b)"
proof -
  from assms obtain p q where p: "parse_iso s = Some p" "a = toordinal p"
    and q: "parse_iso t = Some q" "b = toordinal q"
    by (auto simp: iso_timestamp_def split: option.splits if_splits)
  note cp = parse_iso_canonical[OF p(1)] and cq = parse_iso_canonical[OF q(1)]
  have tf: "text_fields p" "text_fields q"
    using cp cq by (simp_all add: valid_date_text_fields)
  have vm: "valid_md p" "valid_md q"
    using cp cq by (simp_all add: valid_date_def valid_md_def)
  have "s < t \<longleftrightarrow> date_less p q"
    using cp cq iso_text_less[OF tf] by simp
  also have "\<dots> \<longleftrightarrow> a < b"
    using toordinal_less_iff[OF vm] p(2) q(2) by simp
  finally have l: "s < t \<longleftrightarrow> a < b" .
  have "a = b \<Longrightarrow> s = t"
    using toordinal_inj[OF vm] cp cq p(2) q(2) by simp
  moreover have "s = t \<Longrightarrow> a = b" using assms by simp
  ultimately show ?thesis using l by blast
qed

subsection \<open>Storage facts\<close>

text \<open>
  Every operation appends to the table; the ordered query returns a permutation of the
  rows, sorted by the two keys.
\<close>

lemma stored_init_db: "stored (init_db s) = stored s"
  by (cases s) (simp_all add: init_db_def stored_def)

lemma add_expense_appends:
  "add_expense a c d n t s = Inr s' \<Longrightarrow> \<exists>r. stored s' = stored s @ [r]"
  by (cases s) (auto simp: add_expense_def stored_def Let_def)

lemma demo_loop_prefix:
  "demo_loop today draws is s = Inr s' \<Longrightarrow> prefix (stored s) (stored s')"
proof (induction "is" arbitrary: s)
  case Nil
  then show ?case by simp
next
  case (Cons i "is")
  from Cons.prems obtain s1 where a: "add_demo_row today (draws i) s = Inr s1"
    and l: "demo_loop today draws is s1 = Inr s'"
    by (auto split: sum.splits)
  from a obtain r where "stored s1 = stored s @ [r]"
    unfolding add_demo_row_def Let_def by (blast dest: add_expense_appends)
  moreover from Cons.IH[OF l] have "prefix (stored s1) (stored s')" .
  ultimately show ?case by (metis prefix_order.order_trans prefixI)
qed

lemma add_demo_data_prefix:
  "add_demo_data today draws s = Inr s' \<Longrightarrow> prefix (stored s) (stored s')"
  unfolding add_demo_data_def using demo_loop_prefix stored_init_db by metis

lemma add_expense_submit_prefix:
  "prefix (stored s) (stored (snd (add_expense_submit to_dt amt d cat nts now s)))"
  by (auto simp: add_expense_submit_def split: sum.splits dest!: add_expense_appends)

lemma exec_op_prefix: "prefix (stored s) (stored (exec_op op s))"
  by (cases op) (auto simp: stored_init_db split: sum.splits
      dest!: add_expense_appends add_demo_data_prefix)

lemma run_script_prefix: "prefix (stored s) (stored (run_script to_dt p s))"
proof -
  have a: "prefix (stored s)
      (stored (snd (add_expense_submit to_dt amt d cat nts now (init_db s))))"
    for amt d cat nts now
    using add_expense_submit_prefix[of "init_db s" to_dt] by (simp add: stored_init_db)
  have b: "add_demo_data today draws (init_db s) = Inr s' \<Longrightarrow> prefix (stored s) (stored s')"
    for today draws s'
    using add_demo_data_prefix[of today draws "init_db s" s'] by (simp add: stored_init_db)
  show ?thesis
    unfolding run_script_def Let_def
    by (auto simp: stored_init_db a b split: sum.splits page.splits option.splits prod.splits)
qed

lemma fold_prefix:
  assumes "\<And>x s. prefix (stored s) (stored (f x s))"
  shows "prefix (stored s) (stored (fold f xs s))"
proof (induction xs arbitrary: s)
  case Nil
  then show ?case by simp
next
  case (Cons x xs)
  have "prefix (stored s) (stored (f x s))" by (rule assms)
  also have "prefix (stored (f x s)) (stored (fold f xs (f x s)))" by (rule Cons.IH)
  finally show ?case by simp
qed

lemma mset_insert_desc: "mset (insert_desc x ys) = add_mset x (mset ys)"
  by (induction ys) auto

lemma mset_order_by: "mset (order_by_date_created_desc rs) = mset rs"
  unfolding order_by_date_created_desc_def
  by (induction rs) (auto simp: mset_insert_desc)

lemma set_insert_desc: "set (insert_desc x ys) = insert x (set ys)"
  by (induction ys) auto

lemma sorts_before_trans: "sorts_before a b \<Longrightarrow> sorts_before b c \<Longrightarrow> sorts_before a c"
  unfolding sorts_before_def by auto

lemma sorts_before_total: "\<not> sorts_before a b \<Longrightarrow> \<not> sorts_before b a \<Longrightarrow> date a = date b \<and> created_at a = created_at b"
  unfolding sorts_before_def by auto

lemma sorted_insert_desc:
  "sorted_wrt (\<lambda>a b. \<not> sorts_before b a) ys \<Longrightarrow> sorted_wrt (\<lambda>a b. \<not> sorts_before b a) (insert_desc x ys)"
proof (induction ys)
  case Nil
  then show ?case by simp
next
  case (Cons y ys)
  show ?case
  proof (cases "sorts_before y x")
    case True
    then have "\<not> sorts_before x y" unfolding sorts_before_def by auto
    with True Cons show ?thesis by (auto simp: set_insert_desc)
  next
    case False
    have "\<not> sorts_before z x" if "z \<in> set ys" for z
    proof
      assume zx: "sorts_before z x"
      from Cons.prems that have "\<not> sorts_before z y" by auto
      with zx False show False unfolding sorts_before_def by auto
    qed
    with False Cons.prems show ?thesis by auto
  qed
qed

lemma sorted_order_by: "sorted_wrt (\<lambda>a b. \<not> sorts_before b a) (order_by_date_created_desc rs)"
  unfolding order_by_date_created_desc_def
  by (induction rs) (auto simp: sorted_insert_desc)

lemma zip_with_date:
  "map (\<lambda>(r, d). with_date r d) (zip rs (map (g \<circ> date) rs))
     = map (\<lambda>r. with_date r (g (date r))) rs"
  by (induction rs) auto

lemma reads_iso_dates_iso: "reads_iso_dates to_datetime_iso"
  by (simp add: reads_iso_dates_def to_datetime_iso_def)

lemma set_order_by: "set (order_by_date_created_desc rs) = set rs"
  using mset_order_by[of rs] by (metis set_mset_mset)

lemma sorts_before_frame:
  assumes "iso_timestamp (date a) \<noteq> None" "iso_timestamp (date b) \<noteq> None"
  shows "sorts_before a b \<longleftrightarrow>
           (the (iso_timestamp (date b)) < the (iso_timestamp (date a)) \<or>
            (the (iso_timestamp (date a)) = the (iso_timestamp (date b)) \<and>
             created_at b < created_at a))"
proof -
  from assms obtain x y where x: "iso_timestamp (date a) = Some x"
    and y: "iso_timestamp (date b) = Some y" by auto
  from iso_timestamp_order[OF y x] iso_timestamp_order[OF x y] show ?thesis
    by (auto simp: sorts_before_def x y)
qed

lemma twin_rows: "twin_db = Some \<lparr>rows =
   [\<lparr>eid = 1, amount = 50, category = ''Food'', date = ''2024-01-15'',
                 enotes = Some ''lunch'', created_at = ''2024-01-15 12:00:00''\<rparr>,
    \<lparr>eid = 2, amount = 20, category = ''Food'', date = ''2024-01-15'',
                  enotes = None, created_at = ''2024-01-15 12:00:00''\<rparr>], seq = 2\<rparr>"
  by (simp add: twin_db_def init_db_def add_expense_def strftime_ymd_def year_text_def pad4_def pad2_def
      digit_char_def)

lemma iso_timestamp_sample: "iso_timestamp ''2024-01-15'' = Some 738900"
  by (simp add: iso_timestamp_def parse_iso_def number_of_def is_digit_def digit_val_def
      valid_date_def days_in_month_def toordinal_def ymd2ord_def days_before_year_def
      days_before_month_def is_leap_def)

lemma iso_timestamp_sample2: "iso_timestamp ''2024-04-24'' = Some 739000"
  by (simp add: iso_timestamp_def parse_iso_def number_of_def is_digit_def digit_val_def
      valid_date_def days_in_month_def toordinal_def ymd2ord_def days_before_year_def
      days_before_month_def is_leap_def)

subsection \<open>Helper facts\<close>


lemma date_max_ge: "r \<in> set df \<Longrightarrow> date r \<le> date_max df"
  unfolding date_max_def by simp

lemma date_min_in: "df \<noteq> [] \<Longrightarrow> date_min df \<in> date ` set df"
  unfolding date_min_def using Min_in[of "set (map date df)"] by simp

lemma date_min_le: "r \<in> set df \<Longrightarrow> date_min df \<le> date r"
  unfolding date_min_def by simp

lemma add_expense_changes: "add_expense a c d n t s \<noteq> Inr s"
proof
  assume h: "add_expense a c d n t s = Inr s"
  then obtain tb where s: "s = Some tb"
    by (cases s) (auto simp: add_expense_def Let_def)
  from h s have "seq tb = seq tb + 1"
    by (auto simp: add_expense_def Let_def dest: arg_cong[where f = seq])
  then show False by simp
qed

subsection \<open>Bucket facts\<close>

text \<open>
  The shape of the monthly and the weekly resampling of a non-empty frame.
\<close>

lemma date_min_le_max: "df \<noteq> [] \<Longrightarrow> date_min df \<le> date_max df"
  using date_min_in[of df] date_max_ge[of _ df] by auto

lemma sum_filter_none:
  "\<forall>r \<in> set df. \<not> P r \<Longrightarrow> sum_list (map amount (filter P df)) = 0"
  by (induction df) auto

lemma tail_length: "length (tail n xs) = min n (length xs)"
  by (simp add: tail_def)

lemma monthly_facts:
  assumes "df \<noteq> []"
  shows "resample_M df =
           map (\<lambda>k. (month_end k,
                      sum_list (map amount (filter (\<lambda>r. month_index (date r) = k) df))))
             [month_index (date_min df) .. month_index (date_max df)]"
    and "month_index (date_min df) \<le> month_index (date_max df)"
    and "\<forall>r \<in> set df. month_index (date_min df) \<le> month_index (date r) \<and>
                       month_index (date r) \<le> month_index (date_max df)"
    and "\<forall>k \<in> {month_index (date_min df) .. month_index (date_max df)}.
           (\<forall>r \<in> set df. month_index (date r) \<noteq> k) \<longrightarrow> (month_end k, 0) \<in> set (resample_M df)"
proof -
  show r: "resample_M df =
           map (\<lambda>k. (month_end k,
                      sum_list (map amount (filter (\<lambda>r. month_index (date r) = k) df))))
             [month_index (date_min df) .. month_index (date_max df)]"
    using assms by (simp add: resample_M_def)
  show "month_index (date_min df) \<le> month_index (date_max df)"
    using date_min_le_max[OF assms] by (rule month_index_mono)
  show "\<forall>r \<in> set df. month_index (date_min df) \<le> month_index (date r) \<and>
                       month_index (date r) \<le> month_index (date_max df)"
    by (simp add: month_index_mono date_min_le date_max_ge)
  show "\<forall>k \<in> {month_index (date_min df) .. month_index (date_max df)}.
           (\<forall>r \<in> set df. month_index (date r) \<noteq> k) \<longrightarrow> (month_end k, 0) \<in> set (resample_M df)"
  proof (intro ballI impI)
    fix k assume k: "k \<in> {month_index (date_min df) .. month_index (date_max df)}"
      and n: "\<forall>r \<in> set df. month_index (date r) \<noteq> k"
    from n have "sum_list (map amount (filter (\<lambda>r. month_index (date r) = k) df)) = 0"
      by (intro sum_filter_none) simp
    with k show "(month_end k, 0) \<in> set (resample_M df)"
      unfolding r by (auto simp: image_iff intro!: bexI[of _ k])
  qed
qed

lemma div7_exact: "(x::int) mod 7 = 0 \<Longrightarrow> 7 * (x div 7) = x"
  using mult_div_mod_eq[of 7 x] by simp

lemma weekly_facts:
  assumes "df \<noteq> []"
  defines "F \<equiv> roll_to_monday (date_min df)"
  defines "L \<equiv> roll_to_monday (date_max df)"
  shows "resample_W_MON df =
           map (\<lambda>i. (F + 7 * i,
                      sum_list (map amount
                        (filter (\<lambda>r. F + 7 * i - 7 < date r \<and> date r \<le> F + 7 * i) df))))
             [0 .. (L - F) div 7]"
    and "weekday F = 0 \<and> date_min df \<le> F \<and> F < date_min df + 7"
    and "F \<le> L \<and> F + 7 * ((L - F) div 7) = L \<and> date_max df \<le> L \<and> L < date_max df + 7"
    and "\<forall>r \<in> set df. \<exists>i \<in> {0 .. (L - F) div 7}. F + 7 * i - 7 < date r \<and> date r \<le> F + 7 * i"
    and "\<forall>i \<in> {0 .. (L - F) div 7}.
           (\<forall>r \<in> set df. \<not> (F + 7 * i - 7 < date r \<and> date r \<le> F + 7 * i)) \<longrightarrow>
             (F + 7 * i, 0) \<in> set (resample_W_MON df)"
proof -
  show r: "resample_W_MON df =
           map (\<lambda>i. (F + 7 * i,
                      sum_list (map amount
                        (filter (\<lambda>r. F + 7 * i - 7 < date r \<and> date r \<le> F + 7 * i) df))))
             [0 .. (L - F) div 7]"
    using assms(1) by (simp add: resample_W_MON_def Let_def F_def L_def)
  show "weekday F = 0 \<and> date_min df \<le> F \<and> F < date_min df + 7"
    using weekday_roll_to_monday[of "date_min df"] roll_to_monday_bounds[of "date_min df"]
    by (simp add: F_def)
  have FL: "F \<le> L"
    unfolding F_def L_def using date_min_le_max[OF assms(1)] by (rule roll_to_monday_mono)
  have m7: "(L - F) mod 7 = 0"
    unfolding F_def L_def by (rule monday_diff) (rule weekday_roll_to_monday)+
  have "7 * ((L - F) div 7) = L - F" using m7 by (rule div7_exact)
  then show "F \<le> L \<and> F + 7 * ((L - F) div 7) = L \<and> date_max df \<le> L \<and> L < date_max df + 7"
    using FL roll_to_monday_bounds[of "date_max df"] by (simp add: L_def)
  show "\<forall>r \<in> set df. \<exists>i \<in> {0 .. (L - F) div 7}. F + 7 * i - 7 < date r \<and> date r \<le> F + 7 * i"
  proof
    fix r assume rin: "r \<in> set df"
    define M where "M = roll_to_monday (date r)"
    have lower: "F \<le> M" unfolding F_def M_def
      using date_min_le[OF rin] by (rule roll_to_monday_mono)
    have upper: "M \<le> L" unfolding L_def M_def
      using date_max_ge[OF rin] by (rule roll_to_monday_mono)
    have "(M - F) mod 7 = 0"
      unfolding F_def M_def by (rule monday_diff) (rule weekday_roll_to_monday)+
    then have e: "7 * ((M - F) div 7) = M - F" by (rule div7_exact)
    have "0 \<le> (M - F) div 7" using lower by simp
    moreover have "(M - F) div 7 \<le> (L - F) div 7" using upper by (intro zdiv_mono1) simp_all
    moreover have "F + 7 * ((M - F) div 7) - 7 < date r \<and> date r \<le> F + 7 * ((M - F) div 7)"
      using e roll_to_monday_bounds[of "date r"] by (simp add: M_def)
    ultimately show "\<exists>i \<in> {0 .. (L - F) div 7}. F + 7 * i - 7 < date r \<and> date r \<le> F + 7 * i"
      by (intro bexI[of _ "(M - F) div 7"]) simp_all
  qed
  show "\<forall>i \<in> {0 .. (L - F) div 7}.
           (\<forall>r \<in> set df. \<not> (F + 7 * i - 7 < date r \<and> date r \<le> F + 7 * i)) \<longrightarrow>
             (F + 7 * i, 0) \<in> set (resample_W_MON df)"
  proof (intro ballI impI)
    fix i assume i: "i \<in> {0 .. (L - F) div 7}"
      and n: "\<forall>r \<in> set df. \<not> (F + 7 * i - 7 < date r \<and> date r \<le> F + 7 * i)"
    from n have "sum_list (map amount
        (filter (\<lambda>r. F + 7 * i - 7 < date r \<and> date r \<le> F + 7 * i) df)) = 0"
      by (intro sum_filter_none) simp
    with i show "(F + 7 * i, 0) \<in> set (resample_W_MON df)"
      unfolding r by (auto simp: image_iff intro!: bexI[of _ i])
  qed
qed

subsection \<open>Category filter\<close>

text \<open>
  Claim C1, as stated, fails: with an empty selection the filter is skipped
  (\<open>if selected_cats:\<close>), so every record is retained, not none.
\<close>

theorem category_filter_empty_selection_counterexample:
  "category_filter [] [lunch] \<noteq> []"
  by (simp add: category_filter_def)

text \<open>
  Claim C1, amended: for every record set, the category filter with an empty selection
  retains every record; with a non-empty selection it retains exactly the records whose
  category is a member of the selection.
\<close>

theorem category_filter_retains:
  "category_filter [] df = df \<and>
   (selected_cats \<noteq> [] \<longrightarrow>
      category_filter selected_cats df = filter (\<lambda>r. category r \<in> set selected_cats) df)"
  by (simp add: category_filter_def)

theorem category_filter_retains_witness:
  "[''Food''] \<noteq> [] \<and> category_filter [] [lunch, rent] = [lunch, rent] \<and>
   category_filter [''Food''] [lunch, rent] = [lunch]"
  using category_filter_retains [of "[lunch, rent]" "[''Food'']"]
  by (simp add: lunch_def rent_def)

subsection \<open>Date-range filter\<close>

text \<open>
  Claim C5: for every record set and every range of calendar dates, the date-range filter
  retains exactly the records with \<open>start <= date <= end\<close>; a record dated exactly
  \<open>start\<close> or exactly \<open>end\<close> is retained.
\<close>

theorem date_range_filter_inclusive:
  "date_range_filter start_dt end_dt df =
     filter (\<lambda>r. start_dt \<le> date r \<and> date r \<le> end_dt) df \<and>
   (\<forall>r \<in> set df. start_dt \<le> end_dt \<and> (date r = start_dt \<or> date r = end_dt) \<longrightarrow>
      r \<in> set (date_range_filter start_dt end_dt df))"
  by (auto simp: date_range_filter_def)

theorem date_range_filter_inclusive_witness:
  "lunch \<in> set [rent, lunch] \<and> (738900::int) \<le> 739000 \<and> date lunch = 738900 \<and>
   date_range_filter 738900 739000 [rent, lunch] = [rent, lunch] \<and>
   date_range_filter 738901 738999 [rent, lunch] = []"
  using date_range_filter_inclusive [of 738900 739000 "[rent, lunch]"]
    date_range_filter_inclusive [of 738901 738999 "[rent, lunch]"]
  by (simp add: lunch_def rent_def)

subsection \<open>Text search\<close>

text \<open>
  Claim C3 says that a record without notes is never retained by a non-empty search term.
  The code asks for that with \<open>na=False\<close>, but \<open>.astype(str)\<close> has already turned the
  missing value into the text \<open>None\<close>, which the term \<open>none\<close> matches: the record is
  retained.
\<close>

theorem text_search_retains_missing_notes:
  "text_search_filter contains_nocase ''none'' [rent] = [rent] \<and> enotes rent = None"
  by (simp add: text_search_filter_def contains_nocase_def astype_str_def rent_def
      lower_char_def)

subsection \<open>Add expense\<close>

text \<open>
  Claim C6: a submitted amount that is zero or negative shows the error message and leaves
  the database as it was. \<open>add_expense\<close> was not called, since every call of it changes
  the database or raises.
\<close>

theorem add_expense_submit_rejects_nonpositive:
  "amt \<le> 0 \<Longrightarrow>
     add_expense_submit to_datetime amt date_input cat nts now s
       = (Inr (St_error ''Enter an amount > 0''), s) \<and>
     (\<forall>a c d n t. add_expense a c d n t s \<noteq> Inr s)"
  by (simp add: add_expense_submit_def add_expense_changes)

theorem add_expense_submit_rejects_nonpositive_witness:
  "(0::real) \<le> 0 \<and> (-5::real) \<le> 0 \<and>
   add_expense_submit to_datetime_iso 0 \<lparr>year = 2024, month = 1, day = 15\<rparr> ''Food''
       ''Lunch'' ''2024-01-15 12:00:00'' empty_db
     = (Inr (St_error ''Enter an amount > 0''), empty_db) \<and>
   stored (snd (add_expense_submit to_datetime_iso (-5) \<lparr>year = 2024, month = 1, day = 15\<rparr>
       ''Food'' ''Lunch'' ''2024-01-15 12:00:00'' empty_db)) = []"
  using add_expense_submit_rejects_nonpositive
          [where amt = 0 and to_datetime = to_datetime_iso
             and date_input = "\<lparr>year = 2024, month = 1, day = 15\<rparr>" and cat = "''Food''"
             and nts = "''Lunch''" and now = "''2024-01-15 12:00:00''" and s = empty_db]
        add_expense_submit_rejects_nonpositive
          [where amt = "-5" and to_datetime = to_datetime_iso
             and date_input = "\<lparr>year = 2024, month = 1, day = 15\<rparr>" and cat = "''Food''"
             and nts = "''Lunch''" and now = "''2024-01-15 12:00:00''" and s = empty_db]
  by (simp add: empty_db_def stored_def)

subsection \<open>Dashboard: timeframe and the last-30-days metric\<close>






subsection \<open>Records are only ever added\<close>

text \<open>
  Claim C9: db.py has exactly the operations \<open>init_db\<close>, \<open>add_expense\<close>,
  \<open>fetch_expenses\<close> and \<open>add_demo_data\<close>. After any sequence of them, and after any
  sequence of runs of the script (whatever \<open>pd.to_datetime\<close> does), the table is the
  old table followed by new rows: no
  stored record (with its id) is changed or removed, and the number of records never
  decreases.
\<close>

theorem records_only_appended:
  "(\<exists>new. stored (fold exec_op ops s) = stored s @ new) \<and>
   (\<exists>new. stored (fold (run_script to_datetime) pages s) = stored s @ new)"
  using fold_prefix[of exec_op s ops, OF exec_op_prefix]
    fold_prefix[of "run_script to_datetime" s pages, OF run_script_prefix]
  by (simp add: prefix_def)

subsection \<open>The text of the date column\<close>

text \<open>
  What holds for a date of a four-digit year: the stored text is the canonical text of
  the day, it parses back to the day, and such texts compare as their days do. A string
  argument is stored as it is.
\<close>

lemma add_expense_date_text:
  assumes "valid_date d" "1000 \<le> year d" "valid_date d'" "1000 \<le> year d'"
  shows "date (last (stored (exec_op (Op_add_expense amt cat (Date_obj d) nts now) (Some t))))
           = strftime_ymd d \<and>
         date (last (stored (exec_op (Op_add_expense amt cat (Datetime_obj d hh mm ss) nts now)
           (Some t)))) = strftime_ymd d \<and>
         date (last (stored (exec_op (Op_add_expense amt cat (Str txt) nts now) (Some t)))) = txt \<and>
         canonical_iso (strftime_ymd d) \<and> parse_iso (strftime_ymd d) = Some d \<and>
         (strftime_ymd d < strftime_ymd d' \<longleftrightarrow> date_less d d') \<and>
         (strftime_ymd d = strftime_ymd d' \<longleftrightarrow> d = d')"
proof -
  have tf: "text_fields d" "text_fields d'" using assms by (simp_all add: valid_date_text_fields)
  have "iso_text d = iso_text d' \<longleftrightarrow> d = d'"
    using iso_text_inj[OF tf] by blast
  then show ?thesis
    using parse_iso_iso_text[OF assms(1)] iso_text_less[OF tf] assms(2,4)
    by (simp add: add_expense_def stored_def canonical_iso_def strftime_ymd_iso)
qed

text \<open>
  Claim C10 says that every record inserted through \<open>add_expense\<close> has its date stored
  as a canonical text \<open>YYYY-MM-DD\<close>, so that the order of the texts is the order of the
  days; the table's own comment says \<open>stored as 'YYYY-MM-DD'\<close>. For the date 0999-12-31
  the code stores \<open>999-12-31\<close>, which is not of that form, and which sorts after the
  text \<open>1000-01-01\<close> of the following day.
\<close>

theorem add_expense_year_below_1000:
  "valid_date \<lparr>year = 999, month = 12, day = 31\<rparr> \<and>
   date (last (stored (exec_op
     (Op_add_expense 12 ''Food'' (Date_obj \<lparr>year = 999, month = 12, day = 31\<rparr>) None
        ''2024-01-05 10:00:00'') empty_db))) = ''999-12-31'' \<and>
   \<not> canonical_iso ''999-12-31'' \<and>
   date (last (stored (exec_op
     (Op_add_expense 12 ''Food'' (Date_obj \<lparr>year = 1000, month = 1, day = 1\<rparr>) None
        ''2024-01-05 10:00:01'') empty_db))) = ''1000-01-01'' \<and>
   date_less \<lparr>year = 999, month = 12, day = 31\<rparr> \<lparr>year = 1000, month = 1, day = 1\<rparr> \<and>
   (''1000-01-01'' :: string) < ''999-12-31''"
  by (simp add: add_expense_def empty_db_def stored_def strftime_ymd_def year_text_def
      pad4_def pad2_def digit_char_def canonical_iso_def parse_iso_def valid_date_def
      days_in_month_def date_less_def)

subsection \<open>Order of the fetched records\<close>

text \<open>
  Claim C4, as stated, fails: an "iff" with \<open>>=\<close> on \<open>created_at\<close> asks of two records
  with the same date and the same \<open>created_at\<close> that each precede the other.
  \<open>created_at\<close> has a resolution of one second, so two inserts within a second tie. Here
  the second record comes after the first although its date is equal and its
  \<open>created_at\<close> is \<open>>=\<close> that of the first.
\<close>

theorem fetch_expenses_tie_counterexample:
  "fetch_expenses to_datetime_iso twin_db = Inr [first_twin, second_twin] \<and>
   date second_twin = date first_twin \<and> created_at second_twin \<ge> created_at first_twin"
  by (simp add: twin_rows fetch_expenses_def order_by_date_created_desc_def sorts_before_def
      to_datetime_iso_def iso_timestamp_sample with_date_def first_twin_def second_twin_def)

text \<open>
  Claim C4, amended: when the date column holds canonical texts \<open>YYYY-MM-DD\<close> of days
  that a Timestamp can hold (1677-09-22 to 2262-04-11), \<open>fetch_expenses\<close> returns every
  stored record once, with its date parsed, ordered so that whenever A precedes B,
  \<open>A.date > B.date\<close>, or the dates are equal and \<open>A.created_at >= B.created_at\<close>; and
  whenever \<open>A.date > B.date\<close>, or the dates are equal and
  \<open>A.created_at > B.created_at\<close>, A precedes B. The order of records equal in both
  columns is not determined by the query. With no records the result is the empty frame,
  not an error.
\<close>

theorem fetch_expenses_order:
  assumes "reads_iso_dates to_datetime"
    and "\<forall>r \<in> set (rows t). iso_timestamp (date r) \<noteq> None"
  shows "\<exists>df. fetch_expenses to_datetime (Some t) = Inr df \<and>
           df = map (\<lambda>r. with_date r (the (iso_timestamp (date r))))
                  (order_by_date_created_desc (rows t)) \<and>
           mset (order_by_date_created_desc (rows t)) = mset (rows t) \<and>
           (\<forall>i j. i < j \<and> j < length df \<longrightarrow>
              date (df ! j) < date (df ! i) \<or>
              (date (df ! i) = date (df ! j) \<and> created_at (df ! j) \<le> created_at (df ! i))) \<and>
           (\<forall>i j. i < length df \<and> j < length df \<and>
              (date (df ! j) < date (df ! i) \<or>
               (date (df ! i) = date (df ! j) \<and> created_at (df ! j) < created_at (df ! i)))
              \<longrightarrow> i < j) \<and>
           (rows t = [] \<longrightarrow> df = []) \<and>
           fetch_expenses to_datetime (init_db None) = Inr []"
proof -
  define out where "out = order_by_date_created_desc (rows t)"
  define f where "f = (\<lambda>r::row. with_date r (the (iso_timestamp (date r))))"
  define df where "df = map f out"
  have ok: "\<forall>r \<in> set out. iso_timestamp (date r) \<noteq> None"
    using assms(2) by (simp add: out_def set_order_by)
  then have "list_all (\<lambda>s. iso_timestamp s \<noteq> None) (map date out)"
    by (simp add: list_all_iff)
  with assms(1) have rd: "to_datetime (map date out)
      = Some (map (\<lambda>s. the (iso_timestamp s)) (map date out))"
    by (simp add: reads_iso_dates_def)
  have fe: "fetch_expenses to_datetime (Some t) = Inr df"
    by (simp add: fetch_expenses_def out_def[symmetric] rd zip_with_date df_def f_def)
  have len: "length df = length out" by (simp add: df_def)
  have nth: "date (df ! i) = the (iso_timestamp (date (out ! i)))"
    "created_at (df ! i) = created_at (out ! i)" if "i < length out" for i
    using that by (simp_all add: df_def f_def with_date_def)
  have sb: "sorts_before (out ! i) (out ! j) \<longleftrightarrow>
      (date (df ! j) < date (df ! i) \<or>
       (date (df ! i) = date (df ! j) \<and> created_at (df ! j) < created_at (df ! i)))"
    if "i < length out" "j < length out" for i j
    using that ok sorts_before_frame[of "out ! i" "out ! j"] by (simp add: nth)
  have sorted: "\<not> sorts_before (out ! j) (out ! i)" if "i < j" "j < length out" for i j
    using sorted_order_by[of "rows t"] that
    by (simp add: out_def[symmetric] sorted_wrt_iff_nth_less)
  have o1: "date (df ! j) < date (df ! i) \<or>
      (date (df ! i) = date (df ! j) \<and> created_at (df ! j) \<le> created_at (df ! i))"
    if "i < j" "j < length df" for i j
  proof -
    from that len have ij: "i < length out" "j < length out" by simp_all
    from sorted[of i j] that len sb[OF ij(2) ij(1)] show ?thesis by auto
  qed
  have o2: "i < j" if "i < length df" "j < length df"
      "date (df ! j) < date (df ! i) \<or>
       (date (df ! i) = date (df ! j) \<and> created_at (df ! j) < created_at (df ! i))" for i j
  proof (rule ccontr)
    assume "\<not> i < j"
    then consider "j < i" | "i = j" by fastforce
    then show False
    proof cases
      case 1
      from that len have ij: "i < length out" "j < length out" by simp_all
      from sorted[OF 1 ij(1)] sb[OF ij] that(3) show False by simp
    next
      case 2
      with that(3) show False by simp
    qed
  qed
  have e: "rows t = [] \<longrightarrow> df = []"
    by (simp add: df_def out_def order_by_date_created_desc_def)
  have i: "fetch_expenses to_datetime (init_db None) = Inr []"
    by (simp add: fetch_expenses_def init_db_def order_by_date_created_desc_def)
  show ?thesis
    using fe mset_order_by[of "rows t"] o1 o2 e i
    unfolding df_def f_def out_def by blast
qed

theorem fetch_expenses_order_witness:
  "map (\<lambda>r. iso_timestamp (date r)) (rows sample_table) = [Some 738900, Some 739000] \<and>
   fetch_expenses to_datetime_iso (Some sample_table) = Inr [rent, lunch]"
proof -
  have h: "\<forall>r \<in> set (rows sample_table). iso_timestamp (date r) \<noteq> None"
    by (simp add: sample_table_def iso_timestamp_sample iso_timestamp_sample2)
  have o: "order_by_date_created_desc (rows sample_table) = rev (rows sample_table)"
    by (simp add: sample_table_def order_by_date_created_desc_def sorts_before_def)
  have m: "map (\<lambda>r. iso_timestamp (date r)) (rows sample_table) = [Some 738900, Some 739000]"
    by (simp add: sample_table_def iso_timestamp_sample iso_timestamp_sample2)
  show ?thesis
    using fetch_expenses_order [OF reads_iso_dates_iso h] m
    by (simp add: o) (simp add: sample_table_def with_date_def iso_timestamp_sample
        iso_timestamp_sample2 rent_def lunch_def)
qed

text \<open>
  Why the range is named: with a parser that raises outside the Timestamp range, as
  pandas does for nanosecond Timestamps, one record of the year 2300 makes the fetch
  raise.
\<close>

lemma fetch_expenses_out_of_range_example:
  "fetch_expenses to_datetime_iso
     (exec_op (Op_add_expense 12 ''Food'' (Date_obj \<lparr>year = 2300, month = 1, day = 1\<rparr>) None
        ''2024-01-05 10:00:00'') empty_db) = Inl DateParseError"
proof -
  have "iso_timestamp ''2300-01-01'' = None"
    by (simp add: iso_timestamp_def parse_iso_def number_of_def is_digit_def digit_val_def
        valid_date_def days_in_month_def toordinal_def ymd2ord_def days_before_year_def
        days_before_month_def is_leap_def)
  then show ?thesis
    by (simp add: add_expense_def empty_db_def strftime_ymd_def year_text_def pad4_def pad2_def
        digit_char_def fetch_expenses_def order_by_date_created_desc_def to_datetime_iso_def)
qed

subsection \<open>Monthly and weekly buckets\<close>

text \<open>
  What the two resamplings of a non-empty frame compute. The monthly one emits one bucket
  for every calendar month from the month of the earliest date to the month of the
  latest, labelled with the last day of the month. The weekly one emits one bucket for
  every seven days that end on a Monday, from the Monday on or after the earliest date to
  the Monday on or after the latest. Every record falls in a bucket, a bucket holds the
  sum of the amounts of its records, a bucket without records has amount zero, and the
  weekly chart keeps the last 12 weekly buckets.
\<close>

lemma resample_buckets:
  assumes "df \<noteq> []"
  defines "lo \<equiv> month_index (date_min df)" and "hi \<equiv> month_index (date_max df)"
  defines "F \<equiv> roll_to_monday (date_min df)" and "L \<equiv> roll_to_monday (date_max df)"
  shows "resample_M df =
           map (\<lambda>k. (month_end k,
                      sum_list (map amount (filter (\<lambda>r. month_index (date r) = k) df))))
             [lo .. hi] \<and>
         lo \<le> hi \<and>
         (\<forall>r \<in> set df. lo \<le> month_index (date r) \<and> month_index (date r) \<le> hi) \<and>
         (\<forall>k \<in> {lo .. hi}. (\<forall>r \<in> set df. month_index (date r) \<noteq> k) \<longrightarrow>
            (month_end k, 0) \<in> set (resample_M df)) \<and>
         (\<forall>k. month_index (month_end k) = k \<and> month_index (month_end k + 1) = k + 1) \<and>
         resample_W_MON df =
           map (\<lambda>i. (F + 7 * i,
                      sum_list (map amount
                        (filter (\<lambda>r. F + 7 * i - 7 < date r \<and> date r \<le> F + 7 * i) df))))
             [0 .. (L - F) div 7] \<and>
         weekday F = 0 \<and> date_min df \<le> F \<and> F < date_min df + 7 \<and>
         F \<le> L \<and> F + 7 * ((L - F) div 7) = L \<and> date_max df \<le> L \<and> L < date_max df + 7 \<and>
         (\<forall>r \<in> set df. \<exists>i \<in> {0 .. (L - F) div 7}.
            F + 7 * i - 7 < date r \<and> date r \<le> F + 7 * i) \<and>
         (\<forall>i \<in> {0 .. (L - F) div 7}.
            (\<forall>r \<in> set df. \<not> (F + 7 * i - 7 < date r \<and> date r \<le> F + 7 * i)) \<longrightarrow>
              (F + 7 * i, 0) \<in> set (resample_W_MON df)) \<and>
         tail 12 (resample_W_MON df)
           = drop (length (resample_W_MON df) - 12) (resample_W_MON df) \<and>
         length (tail 12 (resample_W_MON df)) = min 12 (length (resample_W_MON df)) \<and>
         (\<forall>tf frame. frame \<noteq> [] \<longrightarrow>
            (\<exists>v. dashboard tf frame = Some v \<and>
               monthly v = resample_M (date_range_filter (fst (resolve_timeframe tf frame))
                                         (snd (resolve_timeframe tf frame)) frame) \<and>
               weekly_chart v = tail 12 (resample_W_MON
                                  (date_range_filter (fst (resolve_timeframe tf frame))
                                         (snd (resolve_timeframe tf frame)) frame))))"
proof -
  note m = monthly_facts[OF assms(1), folded lo_def hi_def]
  note w = weekly_facts[OF assms(1), folded F_def L_def]
  have d: "\<forall>tf frame. frame \<noteq> [] \<longrightarrow>
            (\<exists>v. dashboard tf frame = Some v \<and>
               monthly v = resample_M (date_range_filter (fst (resolve_timeframe tf frame))
                                         (snd (resolve_timeframe tf frame)) frame) \<and>
               weekly_chart v = tail 12 (resample_W_MON
                                  (date_range_filter (fst (resolve_timeframe tf frame))
                                         (snd (resolve_timeframe tf frame)) frame)))"
    by (simp add: dashboard_def Let_def date_range_filter_def split: prod.splits)
  have t: "tail 12 (resample_W_MON df)
           = drop (length (resample_W_MON df) - 12) (resample_W_MON df)"
    by (simp add: tail_def)
  have k: "\<forall>k. month_index (month_end k) = k \<and> month_index (month_end k + 1) = k + 1"
    by (simp add: month_index_month_end month_end_last_day)
  show ?thesis
    using m(1) m(2) m(3) m(4) k w(1) w(2) w(3) w(4) w(5) t tail_length[of 12 "resample_W_MON df"] d
    by blast
qed

lemma resample_buckets_example:
  "[rent, lunch] \<noteq> [] \<and>
   resample_M [rent, lunch] = [(738916, 50), (738945, 0), (738976, 0), (739006, 900)] \<and>
   resample_W_MON [dinner, lunch] = [(738900, 50), (738907, 20)] \<and>
   length (tail 12 (resample_W_MON [rent, lunch])) = 12"
proof -
  have mi: "month_index 738900 = 24288" "month_index 739000 = 24291"
    by (simp_all add: month_index_def year_of_def month_of_def ord2ymd_def Let_def
        days_before_month_def is_leap_def)
  have me: "month_end 24288 = 738916" "month_end 24289 = 738945" "month_end 24290 = 738976"
    "month_end 24291 = 739006"
    by (simp_all add: month_end_def Let_def ymd2ord_def days_before_year_def
        days_before_month_def days_in_month_def is_leap_def)
  have dm: "date_min [rent, lunch] = 738900" "date_max [rent, lunch] = 739000"
    by (simp_all add: date_min_def date_max_def rent_def lunch_def)
  have up: "[24288 .. 24291] = [24288, 24289, 24290, 24291::int]"
    by (simp add: upto.simps)
  have dr: "date rent = 739000" "date lunch = 738900" "amount rent = 900" "amount lunch = 50"
    by (simp_all add: rent_def lunch_def)
  have w: "resample_W_MON [dinner, lunch] = [(738900, 50), (738907, 20)]"
    by (simp add: resample_W_MON_def roll_to_monday_def weekday_def date_min_def date_max_def
        dinner_def lunch_def Let_def upto.simps)
  have rl: "roll_to_monday 738900 = 738900" "roll_to_monday 739000 = 739005"
    by (simp_all add: roll_to_monday_def weekday_def)
  have up2: "length [0 .. (15::int)] = 16" by simp
  have ne: "[rent, lunch] \<noteq> []" by simp
  note t = resample_buckets [OF ne]
  from t have a: "resample_M [rent, lunch] =
      map (\<lambda>k. (month_end k,
                 sum_list (map amount (filter (\<lambda>r. month_index (date r) = k) [rent, lunch]))))
        [month_index (date_min [rent, lunch]) .. month_index (date_max [rent, lunch])]"
    by (rule conjunct1)
  have m: "resample_M [rent, lunch] = [(738916, 50), (738945, 0), (738976, 0), (739006, 900)]"
    unfolding a by (simp add: dm mi me up dr)
  have l: "length (tail 12 (resample_W_MON [rent, lunch])) = 12"
    by (simp add: tail_length resample_W_MON_def Let_def dm rl)
  show ?thesis using ne m w l by simp
qed

text \<open>
  Claim C7 says that the weekly buckets are the weeks starting on Monday. The code labels
  each weekly bar with \<open>%Y-%W\<close>, the number of the week that starts on Monday, but
  \<open>resample('W-MON')\<close> fills the bucket of a Monday with the seven days that end on it.
  Sunday 2024-01-14 belongs to week 02 and Monday 2024-01-15 to week 03; the code sums both
  (20 and 50) into one bar with the label \<open>2024-03\<close>, where the weeks starting on Monday
  give two buckets.
\<close>

theorem weekly_bar_holds_previous_week:
  "weekly_bars [lunch, brunch] = [(''2024-03'', 70)] \<and>
   strftime_Y_W (date brunch) = ''2024-02'' \<and> strftime_Y_W (date lunch) = ''2024-03'' \<and>
   weekday (date brunch) = 6 \<and> weekday (date lunch) = 0 \<and>
   buckets_per_week_starting_monday [lunch, brunch] = [(738893, 20), (738900, 50)]"
proof -
  have y: "year_of 738899 = 2024" "year_of 738900 = 2024"
    by (simp_all add: year_of_def ord2ymd_def Let_def days_before_month_def is_leap_def)
  have j: "ymd2ord 2024 1 1 = 738886"
    by (simp add: ymd2ord_def days_before_year_def days_before_month_def)
  have l: "strftime_Y_W 738899 = ''2024-02''" "strftime_Y_W 738900 = ''2024-03''"
    by (simp_all add: strftime_Y_W_def week_of_year_def day_of_year_def weekday_def y j
        year_text_def pad4_def pad2_def digit_char_def)
  have r: "resample_W_MON [lunch, brunch] = [(738900, 70)]"
    by (simp add: resample_W_MON_def roll_to_monday_def weekday_def date_min_def date_max_def
        brunch_def lunch_def Let_def upto.simps)
  have b: "buckets_per_week_starting_monday [lunch, brunch] = [(738893, 20), (738900, 50)]"
    by (simp add: buckets_per_week_starting_monday_def week_start_def weekday_def
        date_min_def date_max_def brunch_def lunch_def Let_def upto.simps)
  have d: "date brunch = 738899" "date lunch = 738900" by (simp_all add: brunch_def lunch_def)
  show ?thesis
    by (simp add: weekly_bars_def r tail_def l b d) (simp add: weekday_def)
qed

end
